theory Spec2Isabelle
  imports Main "HOL-Library.Word"
begin

section \<open>callbench: a shallow embedding of \<^verbatim>\<open>callbench.c\<close>\<close>

text \<open>
  The program times four operations with a nested minimum-of-minimums loop. The embedding
  keeps the C types: \<^verbatim>\<open>long\<close> and \<^verbatim>\<open>unsigned long\<close> are \<open>64 word\<close>,
  \<^verbatim>\<open>unsigned int\<close> and \<^verbatim>\<open>int\<close> (the result of \<^verbatim>\<open>atoi\<close>) are \<open>32 word\<close>.
  A computation of the program has three possible ends: it returns (\<open>Some (Inr _)\<close>), the
  process is killed by a signal (\<open>Some (Inl _)\<close>), or it runs forever (\<open>None\<close>).
\<close>

subsection \<open>Constants of the source\<close>

definition TEST_READ_PATH :: string where
  "TEST_READ_PATH = ''/dev/zero''"

definition TEST_READ_LEN :: nat where
  "TEST_READ_LEN = 65536"

definition NS_PER_SEC :: "64 word" where
  "NS_PER_SEC = 1000000000"

definition US_PER_SEC :: nat where
  "US_PER_SEC = 1000000"

definition LONG_MAX :: "64 word" where
  "LONG_MAX = 9223372036854775807"

subsection \<open>The clock\<close>

record timespec =
  tv_sec :: "64 word"
  tv_nsec :: "64 word"

text \<open>\<^verbatim>\<open>true_ns\<close>: computed in \<^verbatim>\<open>long\<close>; the model wraps where C leaves overflow undefined.\<close>

definition true_ns :: "timespec \<Rightarrow> 64 word" where
  "true_ns ts = tv_nsec ts + (tv_sec ts * NS_PER_SEC)"

subsection \<open>The environment and the state of the process\<close>

datatype bench_impl = Time_syscall_mb | Time_implicit_mb | Mmap_mb | File_mb

datatype fault = SIGSEGV | SIGFPE

datatype ptr = NULL | MAP_FAILED | Addr nat

datatype oscall =
    Open string int
  | Mmap nat int ptr
  | Malloc nat ptr
  | Memcpy ptr ptr nat
  | Munmap ptr nat
  | Read int ptr nat
  | Close int
  | Free ptr

text \<open>
  The environment answers the calls the program makes: \<open>clock_src k\<close> is the \<open>k\<close>-th
  reading of \<^verbatim>\<open>CLOCK_MONOTONIC\<close> handed to the process, and the three resource
  oracles say, for a call made after \<open>n\<close> earlier resource calls, whether it succeeds and
  with which descriptor or address. \<open>copy_src\<close> says what becomes of a copy that C leaves
  undefined: \<open>None\<close> when the process goes on, \<open>Some f\<close> when it is killed.
\<close>

record env =
  clock_src :: "nat \<Rightarrow> timespec"
  open_src :: "nat \<Rightarrow> nat option"
  mmap_src :: "nat \<Rightarrow> nat option"
  malloc_src :: "nat \<Rightarrow> nat option"
  copy_src :: "nat \<Rightarrow> fault option"

record world =
  env :: env
  clock_reads :: nat
  os_calls :: "oscall list"
  fds :: "nat list"
  mappings :: "nat list"
  buffers :: "nat list"
  invoked :: "bench_impl list"
  stdout :: string
  stderr :: string
  slept_us :: nat

type_synonym 'a result = "(fault + 'a \<times> world) option"

subsection \<open>Library and system calls\<close>

definition clock_gettime :: "world \<Rightarrow> timespec \<times> world" where
  "clock_gettime w =
     (clock_src (env w) (clock_reads w), w\<lparr>clock_reads := clock_reads w + 1\<rparr>)"

definition sys_open :: "string \<Rightarrow> world \<Rightarrow> int \<times> world" where
  "sys_open path w =
     (case open_src (env w) (length (os_calls w)) of
        None \<Rightarrow> (- 1, w\<lparr>os_calls := os_calls w @ [Open path (- 1)]\<rparr>)
      | Some n \<Rightarrow> (int n, w\<lparr>os_calls := os_calls w @ [Open path (int n)], fds := n # fds w\<rparr>))"

text \<open>A file mapping needs an open descriptor: on any other one \<^verbatim>\<open>mmap\<close> fails.\<close>

definition sys_mmap :: "nat \<Rightarrow> int \<Rightarrow> world \<Rightarrow> ptr \<times> world" where
  "sys_mmap len fd w =
     (case (if 0 \<le> fd \<and> nat fd \<in> set (fds w) then mmap_src (env w) (length (os_calls w)) else None) of
        None \<Rightarrow> (MAP_FAILED, w\<lparr>os_calls := os_calls w @ [Mmap len fd MAP_FAILED]\<rparr>)
      | Some a \<Rightarrow>
          (Addr a, w\<lparr>os_calls := os_calls w @ [Mmap len fd (Addr a)], mappings := a # mappings w\<rparr>))"

definition libc_malloc :: "nat \<Rightarrow> world \<Rightarrow> ptr \<times> world" where
  "libc_malloc len w =
     (case malloc_src (env w) (length (os_calls w)) of
        None \<Rightarrow> (NULL, w\<lparr>os_calls := os_calls w @ [Malloc len NULL]\<rparr>)
      | Some a \<Rightarrow>
          (Addr a, w\<lparr>os_calls := os_calls w @ [Malloc len (Addr a)], buffers := a # buffers w\<rparr>))"

fun is_addr :: "ptr \<Rightarrow> bool" where
  "is_addr (Addr a) = True"
| "is_addr NULL = False"
| "is_addr MAP_FAILED = False"

text \<open>
  A copy from or to \<^verbatim>\<open>NULL\<close> or \<^verbatim>\<open>MAP_FAILED\<close> is undefined in C, and the buffer
  of \<^verbatim>\<open>mmap_mb\<close> is never read, so that a build may leave the copy out. The model
  does not choose: the environment says whether the process is killed there or goes on.
\<close>

definition libc_memcpy :: "ptr \<Rightarrow> ptr \<Rightarrow> nat \<Rightarrow> world \<Rightarrow> fault + world" where
  "libc_memcpy dst src len w =
     (if is_addr dst \<and> is_addr src
      then Inr (w\<lparr>os_calls := os_calls w @ [Memcpy dst src len]\<rparr>)
      else (case copy_src (env w) (length (os_calls w)) of
              None \<Rightarrow> Inr (w\<lparr>os_calls := os_calls w @ [Memcpy dst src len]\<rparr>)
            | Some f \<Rightarrow> Inl f))"

definition sys_munmap :: "ptr \<Rightarrow> nat \<Rightarrow> world \<Rightarrow> world" where
  "sys_munmap p len w =
     w\<lparr>os_calls := os_calls w @ [Munmap p len],
       mappings := (case p of Addr a \<Rightarrow> remove1 a (mappings w) | _ \<Rightarrow> mappings w)\<rparr>"

definition sys_read :: "int \<Rightarrow> ptr \<Rightarrow> nat \<Rightarrow> world \<Rightarrow> world" where
  "sys_read fd buf len w = w\<lparr>os_calls := os_calls w @ [Read fd buf len]\<rparr>"

definition sys_close :: "int \<Rightarrow> world \<Rightarrow> world" where
  "sys_close fd w =
     w\<lparr>os_calls := os_calls w @ [Close fd],
       fds := (if 0 \<le> fd then remove1 (nat fd) (fds w) else fds w)\<rparr>"

definition libc_free :: "ptr \<Rightarrow> world \<Rightarrow> world" where
  "libc_free p w =
     w\<lparr>os_calls := os_calls w @ [Free p],
       buffers := (case p of Addr a \<Rightarrow> remove1 a (buffers w) | _ \<Rightarrow> buffers w)\<rparr>"

definition putchar :: "char \<Rightarrow> world \<Rightarrow> world" where
  "putchar c w = w\<lparr>stdout := stdout w @ [c]\<rparr>"

definition print_stdout :: "string \<Rightarrow> world \<Rightarrow> world" where
  "print_stdout s w = w\<lparr>stdout := stdout w @ s\<rparr>"

definition print_stderr :: "string \<Rightarrow> world \<Rightarrow> world" where
  "print_stderr s w = w\<lparr>stderr := stderr w @ s\<rparr>"

definition usleep :: "nat \<Rightarrow> world \<Rightarrow> world" where
  "usleep us w = w\<lparr>slept_us := slept_us w + us\<rparr>"

subsection \<open>The four measured operations\<close>

definition time_syscall_mb :: "world \<Rightarrow> fault + world" where
  "time_syscall_mb w = (let (ts, w1) = clock_gettime w in Inr w1)"

definition time_implicit_mb :: "world \<Rightarrow> fault + world" where
  "time_implicit_mb w = (let (ts, w1) = clock_gettime w in Inr w1)"

definition mmap_mb :: "world \<Rightarrow> fault + world" where
  "mmap_mb w =
     (let (fd, w1) = sys_open TEST_READ_PATH w;
          len = TEST_READ_LEN;
          (data, w2) = sys_mmap len fd w1;
          (buf, w3) = libc_malloc len w2
      in case libc_memcpy buf data len w3 of
           Inl f \<Rightarrow> Inl f
         | Inr w4 \<Rightarrow> Inr (libc_free buf (sys_close fd (sys_munmap data len w4))))"

definition file_mb :: "world \<Rightarrow> fault + world" where
  "file_mb w =
     (let (fd, w1) = sys_open TEST_READ_PATH w;
          len = TEST_READ_LEN;
          (buf, w2) = libc_malloc len w1;
          w3 = sys_read fd buf len w2
      in Inr (libc_free buf (sys_close fd w3)))"

text \<open>The call through the function pointer; the call itself is logged in \<open>invoked\<close>.\<close>

definition run_impl :: "bench_impl \<Rightarrow> world \<Rightarrow> fault + world" where
  "run_impl inner_call w =
     (let w1 = w\<lparr>invoked := invoked w @ [inner_call]\<rparr>
      in case inner_call of
           Time_syscall_mb \<Rightarrow> time_syscall_mb w1
         | Time_implicit_mb \<Rightarrow> time_implicit_mb w1
         | Mmap_mb \<Rightarrow> mmap_mb w1
         | File_mb \<Rightarrow> file_mb w1)"

subsection \<open>The timing loop\<close>

text \<open>
  The three loops of \<^verbatim>\<open>run_bench_ns\<close>, innermost first. Each counter is an
  \<^verbatim>\<open>unsigned int\<close>, widened for the comparison with its \<^verbatim>\<open>unsigned long\<close> bound.
\<close>

partial_function (option) call_loop ::
  "bench_impl \<Rightarrow> 64 word \<Rightarrow> 32 word \<Rightarrow> world \<Rightarrow> (fault + world) option" where
  "call_loop inner_call calls call w =
     (if ucast call < calls then
        (case run_impl inner_call w of
           Inl f \<Rightarrow> Some (Inl f)
         | Inr w1 \<Rightarrow> call_loop inner_call calls (call + 1) w1)
      else Some (Inr w))"

text \<open>One pass of the middle loop up to the computation of \<^verbatim>\<open>elapsed_ns\<close>.\<close>

definition timed_sample :: "bench_impl \<Rightarrow> 64 word \<Rightarrow> world \<Rightarrow> (64 word) result" where
  "timed_sample inner_call calls w =
     (let (before, w1) = clock_gettime w
      in case call_loop inner_call calls 0 w1 of
           None \<Rightarrow> None
         | Some (Inl f) \<Rightarrow> Some (Inl f)
         | Some (Inr w2) \<Rightarrow>
             (let (after, w3) = clock_gettime w2;
                  elapsed_ns = true_ns after - true_ns before
              in Some (Inr (elapsed_ns, w3))))"

partial_function (option) iter_loop ::
  "bench_impl \<Rightarrow> 64 word \<Rightarrow> 64 word \<Rightarrow> 32 word \<Rightarrow> 64 word \<Rightarrow> world \<Rightarrow> (64 word) result" where
  "iter_loop inner_call calls iters i best_ns2 w =
     (if ucast i < iters then
        (case timed_sample inner_call calls w of
           None \<Rightarrow> None
         | Some (Inl f) \<Rightarrow> Some (Inl f)
         | Some (Inr (elapsed_ns, w1)) \<Rightarrow>
             iter_loop inner_call calls iters (i + 1)
               (if elapsed_ns <s best_ns2 then elapsed_ns else best_ns2) w1)
      else Some (Inr (best_ns2, w)))"

text \<open>
  \<^verbatim>\<open>best_ns2 /= calls\<close> divides a \<^verbatim>\<open>long\<close> by an \<^verbatim>\<open>unsigned long\<close>: both
  operands are taken as unsigned, which is \<open>div\<close> on words. Dividing by zero kills
  the process.
\<close>

partial_function (option) rep_loop ::
  "bench_impl \<Rightarrow> 64 word \<Rightarrow> 64 word \<Rightarrow> 64 word \<Rightarrow> 32 word \<Rightarrow> 64 word \<Rightarrow> world \<Rightarrow> (64 word) result" where
  "rep_loop inner_call calls iters reps rep best_ns1 w =
     (if ucast rep < reps then
        (case iter_loop inner_call calls iters 0 LONG_MAX w of
           None \<Rightarrow> None
         | Some (Inl f) \<Rightarrow> Some (Inl f)
         | Some (Inr (best_ns2, w1)) \<Rightarrow>
             if calls = 0 then Some (Inl SIGFPE)
             else rep_loop inner_call calls iters reps (rep + 1)
                    (if best_ns2 div calls <s best_ns1 then best_ns2 div calls else best_ns1)
                    (usleep (US_PER_SEC div 8) (putchar CHR ''.'' w1)))
      else Some (Inr (best_ns1, w)))"

definition run_bench_ns :: "bench_impl \<Rightarrow> 64 word \<Rightarrow> 64 word \<Rightarrow> 64 word \<Rightarrow> world \<Rightarrow> (64 word) result" where
  "run_bench_ns inner_call calls iters reps w = rep_loop inner_call calls iters reps 0 LONG_MAX w"

declare call_loop.simps [code]
declare iter_loop.simps [code]
declare rep_loop.simps [code]

subsection \<open>Arguments\<close>

text \<open>
  \<^verbatim>\<open>atoi\<close> as the C library has it: white space, an optional sign, then decimal digits,
  stopping at the first other character; no digits give 0. A value outside \<^verbatim>\<open>long\<close>
  is clamped by the underlying \<^verbatim>\<open>strtol\<close> and the result is cut to \<^verbatim>\<open>int\<close>.
\<close>

definition isspace :: "char \<Rightarrow> bool" where
  "isspace c = (c \<in> set [CHR '' '', CHR 0x09, CHR 0x0A, CHR 0x0B, CHR 0x0C, CHR 0x0D])"

definition isdigit :: "char \<Rightarrow> bool" where
  "isdigit c = (c \<in> set ''0123456789'')"

definition digit_val :: "char \<Rightarrow> nat" where
  "digit_val c = of_char c - 48"

definition dec_value :: "string \<Rightarrow> nat" where
  "dec_value ds = foldl (\<lambda>a c. a * 10 + digit_val c) 0 ds"

text \<open>The sign and the digits \<^verbatim>\<open>atoi\<close> reads from a token.\<close>

definition number_prefix :: "string \<Rightarrow> bool \<times> string" where
  "number_prefix s =
     (case dropWhile isspace s of
        [] \<Rightarrow> (False, [])
      | c # cs \<Rightarrow>
          if c = CHR ''-'' then (True, takeWhile isdigit cs)
          else if c = CHR ''+'' then (False, takeWhile isdigit cs)
          else (False, takeWhile isdigit (c # cs)))"

definition strtol :: "string \<Rightarrow> int" where
  "strtol s =
     (let (neg, ds) = number_prefix s; n = int (dec_value ds)
      in if neg then max (- (2 ^ 63)) (- n) else min (2 ^ 63 - 1) n)"

definition atoi :: "string \<Rightarrow> 32 word" where
  "atoi s = word_of_int (strtol s)"

text \<open>The conversion of \<^verbatim>\<open>int\<close> to \<^verbatim>\<open>unsigned long\<close> extends the sign: \<open>scast\<close>.\<close>

definition get_arg :: "int \<Rightarrow> string list \<Rightarrow> int \<Rightarrow> 64 word \<Rightarrow> 64 word" where
  "get_arg argc argv index default_value =
     (let value0 = (0 :: 64 word);
          value1 = (if argc > index then scast (atoi (argv ! nat index)) else value0);
          value2 = (if value1 = 0 then default_value else value1)
      in value2)"

subsection \<open>The two drivers and \<^verbatim>\<open>main\<close>\<close>

function dec :: "nat \<Rightarrow> string" where
  "dec n = (if n < 10 then [''0123456789'' ! n] else dec (n div 10) @ [''0123456789'' ! (n mod 10)])"
  by pat_completeness auto
termination
  by (relation "measure (\<lambda>n. n)") auto

declare dec.simps [simp del]

text \<open>The conversion \<^verbatim>\<open>%ld\<close>.\<close>

definition show_long :: "64 word \<Rightarrow> string" where
  "show_long x = (if sint x < 0 then CHR ''-'' # dec (nat (- sint x)) else dec (nat (sint x)))"

definition bench_time :: "int \<Rightarrow> string list \<Rightarrow> world \<Rightarrow> int result" where
  "bench_time argc argv w =
     (let calls = get_arg argc argv 2 100000;
          iters = get_arg argc argv 3 32;
          reps = get_arg argc argv 4 5;
          w1 = print_stdout ''clock_gettime: '' w
      in case run_bench_ns Time_syscall_mb calls iters reps w1 of
           None \<Rightarrow> None
         | Some (Inl f) \<Rightarrow> Some (Inl f)
         | Some (Inr (best_ns_syscall, w2)) \<Rightarrow>
             (case run_bench_ns Time_implicit_mb calls iters reps w2 of
                None \<Rightarrow> None
              | Some (Inl f) \<Rightarrow> Some (Inl f)
              | Some (Inr (best_ns_implicit, w3)) \<Rightarrow>
                  (let w4 = print_stdout (''\<newline>    syscall: '' @ show_long best_ns_syscall @ '' ns\<newline>'') w3;
                       w5 = print_stdout (''    implicit: '' @ show_long best_ns_implicit @ '' ns\<newline>'') w4
                   in Some (Inr (0, w5)))))"

definition bench_file :: "int \<Rightarrow> string list \<Rightarrow> world \<Rightarrow> int result" where
  "bench_file argc argv w =
     (let calls = get_arg argc argv 2 100;
          iters = get_arg argc argv 3 128;
          reps = get_arg argc argv 4 5;
          w1 = print_stdout ''file read: '' w
      in case run_bench_ns Mmap_mb calls iters reps w1 of
           None \<Rightarrow> None
         | Some (Inl f) \<Rightarrow> Some (Inl f)
         | Some (Inr (best_ns_mmap, w2)) \<Rightarrow>
             (case run_bench_ns File_mb calls iters reps w2 of
                None \<Rightarrow> None
              | Some (Inl f) \<Rightarrow> Some (Inl f)
              | Some (Inr (best_ns_file, w3)) \<Rightarrow>
                  (let w4 = print_stdout (''\<newline>    mmap: '' @ show_long best_ns_mmap @ '' ns\<newline>'') w3;
                       w5 = print_stdout (''    read: '' @ show_long best_ns_file @ '' ns\<newline>'') w4
                   in Some (Inr (0, w5)))))"

text \<open>\<^verbatim>\<open>tolower\<close> in the C locale, the one a program has that never sets another.\<close>

definition tolower :: "char \<Rightarrow> char" where
  "tolower c =
     (case map_of (zip ''ABCDEFGHIJKLMNOPQRSTUVWXYZ'' ''abcdefghijklmnopqrstuvwxyz'') c of
        Some l \<Rightarrow> l
      | None \<Rightarrow> c)"

text \<open>\<^verbatim>\<open>argv[1][0]\<close>: the first character, the terminating NUL for the empty string.\<close>

definition first_char :: "string \<Rightarrow> char" where
  "first_char s = (case s of [] \<Rightarrow> CHR 0x00 | c # cs \<Rightarrow> c)"

definition main :: "int \<Rightarrow> string list \<Rightarrow> world \<Rightarrow> int result" where
  "main argc argv w =
     (let mode = (if argc \<ge> 2 then tolower (first_char (argv ! 1)) else CHR ''a'')
      in if argc \<ge> 2 \<and> mode \<noteq> CHR ''t'' \<and> mode \<noteq> CHR ''f'' \<and> mode \<noteq> CHR ''a''
         then Some (Inr (1, print_stderr
                (''Invalid mode '' @ [CHR 0x27, mode, CHR 0x27] @ ''! Valid modes are: [t]ime, [f]ile, [a]ll\<newline>'') w))
         else
           (let do_time = (mode = CHR ''t'' \<or> mode = CHR ''a'');
                do_file = (mode = CHR ''f'' \<or> mode = CHR ''a'')
            in case (if do_time then bench_time argc argv w else Some (Inr (0, w))) of
                 None \<Rightarrow> None
               | Some (Inl f) \<Rightarrow> Some (Inl f)
               | Some (Inr (ret, w1)) \<Rightarrow>
                   if do_time \<and> ret \<noteq> 0 then Some (Inr (ret, w1))
                   else
                     (let w2 = (if do_time \<and> do_file then putchar CHR 0x0A w1 else w1)
                      in case (if do_file then bench_file argc argv w2 else Some (Inr (0, w2))) of
                           None \<Rightarrow> None
                         | Some (Inl f) \<Rightarrow> Some (Inl f)
                         | Some (Inr (ret2, w3)) \<Rightarrow>
                             if do_file \<and> ret2 \<noteq> 0 then Some (Inr (ret2, w3))
                             else Some (Inr (0, w3)))))"

text \<open>The program as started: \<^verbatim>\<open>argc\<close> is the number of entries of \<^verbatim>\<open>argv\<close>.\<close>

definition callbench :: "string list \<Rightarrow> world \<Rightarrow> int result" where
  "callbench argv w = main (int (length argv)) argv w"

subsection \<open>The loops as recursion on the number of passes\<close>

text \<open>
  The same loop bodies, iterated a given number of times. They are what the loops of
  \<^verbatim>\<open>run_bench_ns\<close> compute when every bound is below \<open>2^32\<close>; the lemmas
  \<open>call_loop_closed\<close>, \<open>iter_loop_closed\<close> and \<open>rep_loop_closed\<close> say so.
\<close>

fun repeat_impl :: "nat \<Rightarrow> bench_impl \<Rightarrow> world \<Rightarrow> fault + world" where
  "repeat_impl 0 b w = Inr w"
| "repeat_impl (Suc n) b w =
     (case run_impl b w of Inl f \<Rightarrow> Inl f | Inr w1 \<Rightarrow> repeat_impl n b w1)"

definition sample_pure :: "nat \<Rightarrow> bench_impl \<Rightarrow> world \<Rightarrow> fault + 64 word \<times> world" where
  "sample_pure n b w =
     (let (before, w1) = clock_gettime w
      in case repeat_impl n b w1 of
           Inl f \<Rightarrow> Inl f
         | Inr w2 \<Rightarrow>
             (let (after, w3) = clock_gettime w2
              in Inr (true_ns after - true_ns before, w3)))"

fun iter_pure :: "nat \<Rightarrow> nat \<Rightarrow> bench_impl \<Rightarrow> 64 word \<Rightarrow> world \<Rightarrow> fault + 64 word \<times> world" where
  "iter_pure 0 c b best w = Inr (best, w)"
| "iter_pure (Suc n) c b best w =
     (case sample_pure c b w of
        Inl f \<Rightarrow> Inl f
      | Inr (e, w1) \<Rightarrow> iter_pure n c b (if e <s best then e else best) w1)"

fun rep_pure :: "nat \<Rightarrow> nat \<Rightarrow> 64 word \<Rightarrow> bench_impl \<Rightarrow> 64 word \<Rightarrow> world \<Rightarrow> fault + 64 word \<times> world" where
  "rep_pure 0 m calls b best w = Inr (best, w)"
| "rep_pure (Suc n) m calls b best w =
     (case iter_pure m (unat calls) b LONG_MAX w of
        Inl f \<Rightarrow> Inl f
      | Inr (best2, w1) \<Rightarrow>
          if calls = 0 then Inl SIGFPE
          else rep_pure n m calls b
                 (if best2 div calls <s best then best2 div calls else best)
                 (usleep (US_PER_SEC div 8) (putchar CHR ''.'' w1)))"

subsection \<open>What a run observes\<close>

text \<open>Clock readings one invocation consumes, and one timed sample of \<open>calls\<close> invocations.\<close>

definition reads_per_call :: "bench_impl \<Rightarrow> nat" where
  "reads_per_call b =
     (case b of Time_syscall_mb \<Rightarrow> 1 | Time_implicit_mb \<Rightarrow> 1 | Mmap_mb \<Rightarrow> 0 | File_mb \<Rightarrow> 0)"

definition sample_reads :: "bench_impl \<Rightarrow> nat \<Rightarrow> nat" where
  "sample_reads b calls = 2 + reads_per_call b * calls"

text \<open>
  \<open>advanced b reads n dots w w'\<close>: from \<open>w\<close> to \<open>w'\<close> the clock was read \<open>reads\<close>
  times, \<open>b\<close> was invoked \<open>n\<close> times and nothing else, \<open>dots\<close> progress dots were
  printed, and no descriptor, mapping or buffer was left behind.
\<close>

definition advanced :: "bench_impl \<Rightarrow> nat \<Rightarrow> nat \<Rightarrow> nat \<Rightarrow> world \<Rightarrow> world \<Rightarrow> bool" where
  "advanced b reads n dots w w' =
     (env w' = env w \<and> clock_reads w' = clock_reads w + reads
      \<and> invoked w' = invoked w @ replicate n b
      \<and> stdout w' = stdout w @ replicate dots CHR ''.''
      \<and> stderr w' = stderr w
      \<and> fds w' = fds w \<and> mappings w' = mappings w \<and> buffers w' = buffers w)"

text \<open>
  Only \<^verbatim>\<open>mmap_mb\<close> can be killed, and only at a copy with a failed mapping or buffer:
  not when every acquisition succeeds.
\<close>

definition never_faults :: "bench_impl \<Rightarrow> env \<Rightarrow> bool" where
  "never_faults b e =
     (b = Mmap_mb \<longrightarrow>
        (\<forall>n. open_src e n \<noteq> None \<and> mmap_src e n \<noteq> None \<and> malloc_src e n \<noteq> None))"


subsection \<open>The monotonic clock and the value the specification names\<close>

text \<open>
  A reading of \<^verbatim>\<open>CLOCK_MONOTONIC\<close> is a non-negative time with \<open>tv_nsec\<close> below one
  second, small enough for \<^verbatim>\<open>true_ns\<close> not to overflow, and no reading is before the
  previous one.
\<close>

definition ns_of :: "timespec \<Rightarrow> int" where
  "ns_of ts = sint (tv_sec ts) * 1000000000 + sint (tv_nsec ts)"

definition valid_reading :: "timespec \<Rightarrow> bool" where
  "valid_reading ts =
     (0 \<le> sint (tv_sec ts) \<and> 0 \<le> sint (tv_nsec ts) \<and> sint (tv_nsec ts) < 1000000000
      \<and> ns_of ts < 2 ^ 63)"

definition monotonic_clock :: "env \<Rightarrow> bool" where
  "monotonic_clock e =
     (\<forall>k. valid_reading (clock_src e k) \<and> ns_of (clock_src e k) \<le> ns_of (clock_src e (Suc k)))"

text \<open>
  The elapsed nanoseconds of the sample that starts at reading \<open>k\<close>, then the
  specification's value: per repetition the minimum over the samples, divided by \<open>calls\<close>
  with C's truncating division, and the minimum of these over the repetitions.
\<close>

definition elapsed_at :: "env \<Rightarrow> bench_impl \<Rightarrow> nat \<Rightarrow> nat \<Rightarrow> int" where
  "elapsed_at e b calls k =
     ns_of (clock_src e (k + 1 + reads_per_call b * calls)) - ns_of (clock_src e k)"

definition trunc_div :: "int \<Rightarrow> int \<Rightarrow> int" where
  "trunc_div a b = sgn a * sgn b * (\<bar>a\<bar> div \<bar>b\<bar>)"

definition best_of_rep :: "env \<Rightarrow> bench_impl \<Rightarrow> nat \<Rightarrow> nat \<Rightarrow> nat \<Rightarrow> int" where
  "best_of_rep e b calls iters k =
     trunc_div
       (Min (set (map (\<lambda>i. elapsed_at e b calls (k + i * sample_reads b calls)) [0..<iters])))
       (int calls)"

definition min_of_mins :: "env \<Rightarrow> bench_impl \<Rightarrow> nat \<Rightarrow> nat \<Rightarrow> nat \<Rightarrow> nat \<Rightarrow> int" where
  "min_of_mins e b calls iters reps k =
     Min (set (map (\<lambda>r. best_of_rep e b calls iters (k + r * (iters * sample_reads b calls)))
                [0..<reps]))"

subsection \<open>Parameters the counters cannot reach\<close>

text \<open>
  Some loop of \<^verbatim>\<open>run_bench_ns\<close> that is entered has a bound of \<open>2^32\<close> or more: the
  outer one, or an inner one whose enclosing loops run at least once.
\<close>

definition out_of_range :: "64 word \<Rightarrow> 64 word \<Rightarrow> 64 word \<Rightarrow> bool" where
  "out_of_range calls iters reps =
     (2 ^ 32 \<le> unat reps \<or>
      (reps \<noteq> 0 \<and> (2 ^ 32 \<le> unat iters \<or> (iters \<noteq> 0 \<and> 2 ^ 32 \<le> unat calls))))"

subsection \<open>A concrete environment\<close>

text \<open>
  A clock that advances in steps, and resource calls that all succeed; the initial state of
  a process in that environment.
\<close>

definition clock0 :: "nat \<Rightarrow> timespec" where
  "clock0 k =
     \<lparr>tv_sec = 1,
      tv_nsec = (if k < 2 then 0 else if k < 6 then 31 else if k < 9 then 50
                 else if k < 14 then 77 else 100)\<rparr>"

definition env0 :: env where
  "env0 = \<lparr>clock_src = clock0, open_src = (\<lambda>n. Some 3), mmap_src = (\<lambda>n. Some 4096),
            malloc_src = (\<lambda>n. Some 8192), copy_src = (\<lambda>n. Some SIGSEGV)\<rparr>"

definition world0 :: world where
  "world0 = \<lparr>env = env0, clock_reads = 0, os_calls = [], fds = [], mappings = [], buffers = [],
              invoked = [], stdout = [], stderr = [], slept_us = 0\<rparr>"

text \<open>The end of a computation without the final state.\<close>

definition result_of :: "'a result \<Rightarrow> (fault + 'a) option" where
  "result_of x = map_option (map_sum id fst) x"

subsection \<open>Tokens and counts named by the specification\<close>



text \<open>
  The number of invocations of each operation of a pair, from the resolved arguments; and
  the argument lists none of whose tuning tokens parses to a negative number.
\<close>

definition time_invocations :: "string list \<Rightarrow> nat" where
  "time_invocations argv =
     (let argc = int (length argv)
      in unat (get_arg argc argv 2 100000) * unat (get_arg argc argv 3 32)
           * unat (get_arg argc argv 4 5))"

definition file_invocations :: "string list \<Rightarrow> nat" where
  "file_invocations argv =
     (let argc = int (length argv)
      in unat (get_arg argc argv 2 100) * unat (get_arg argc argv 3 128)
           * unat (get_arg argc argv 4 5))"

definition tunings_in_range :: "string list \<Rightarrow> bool" where
  "tunings_in_range argv =
     (\<forall>i. 2 \<le> i \<and> i \<le> 4 \<and> i < length argv \<longrightarrow> 0 \<le> sint (atoi (argv ! i)))"

subsection \<open>An environment without the device\<close>

text \<open>
  Every \<^verbatim>\<open>open\<close> fails and no copy kills the process; the clock stands at 0 for the
  first reading and at 700 after.
\<close>

definition env_no_dev :: env where
  "env_no_dev =
     \<lparr>clock_src = (\<lambda>k. \<lparr>tv_sec = 0, tv_nsec = (if k = 0 then 0 else 700)\<rparr>),
      open_src = (\<lambda>n. None), mmap_src = (\<lambda>n. Some 4096), malloc_src = (\<lambda>n. Some 8192),
      copy_src = (\<lambda>n. None)\<rparr>"

definition world_no_dev :: world where
  "world_no_dev = \<lparr>env = env_no_dev, clock_reads = 0, os_calls = [], fds = [], mappings = [],
     buffers = [], invoked = [], stdout = [], stderr = [], slept_us = 0\<rparr>"

section \<open>Properties\<close>

subsection \<open>Arguments\<close>

lemma sint_scast_long: "sint (scast (x::32 word) :: 64 word) = sint x"
  by (simp add: sint_up_scast is_up)

lemma scast_long_eq_0: "(scast (x::32 word) :: 64 word) = 0 \<longleftrightarrow> x = 0"
proof
  assume "(scast x :: 64 word) = 0"
  then have "sint (scast x :: 64 word) = sint (0 :: 64 word)" by simp
  then have "sint x = sint (0 :: 32 word)" by (simp add: sint_scast_long)
  then show "x = 0" by (rule signed_word_eqI)
qed simp

lemma uint_of_negative:
  fixes y :: "64 word"
  assumes "sint y < 0"
  shows "uint y = 2 ^ 64 + sint y"
proof -
  have lo: "- (2 ^ 63) \<le> sint y" using sint_ge [of y] by simp
  have "uint y = sint y mod 2 ^ 64" by (simp add: uint_sint take_bit_eq_mod)
  also have "\<dots> = (sint y + 2 ^ 64) mod 2 ^ 64" by simp
  also have "\<dots> = sint y + 2 ^ 64" using lo assms by (intro mod_pos_pos_trivial) simp_all
  finally show ?thesis by simp
qed

lemma get_arg_present:
  "index < argc \<Longrightarrow> get_arg argc argv index d =
     (if atoi (argv ! nat index) = 0 then d else scast (atoi (argv ! nat index)))"
  by (simp add: get_arg_def Let_def scast_long_eq_0)

lemma get_arg_absent: "argc \<le> index \<Longrightarrow> get_arg argc argv index d = d"
  by (simp add: get_arg_def Let_def)

text \<open>
  Claim C9. When the token at \<open>index\<close> is present, \<^verbatim>\<open>get_arg\<close> returns the default
  exactly when \<^verbatim>\<open>atoi\<close> gave 0, and the sign-extended value of \<^verbatim>\<open>atoi\<close> otherwise.
  For a negative parse \<open>v\<close> the result, read as \<^verbatim>\<open>unsigned long\<close>, is \<open>2^64 + v\<close>: at
  least \<open>2^64 - 2^31\<close>, and different from every default below that bound.
\<close>

theorem get_arg_negative:
  assumes "index < argc"
  shows "get_arg argc argv index d =
           (if atoi (argv ! nat index) = 0 then d else scast (atoi (argv ! nat index)))
       \<and> (sint (atoi (argv ! nat index)) < 0 \<longrightarrow>
            uint (get_arg argc argv index d) = 2 ^ 64 + sint (atoi (argv ! nat index))
          \<and> 2 ^ 64 - 2 ^ 31 \<le> uint (get_arg argc argv index d)
          \<and> (uint d < 2 ^ 64 - 2 ^ 31 \<longrightarrow> get_arg argc argv index d \<noteq> d))"
proof -
  let ?v = "atoi (argv ! nat index)"
  have eq: "get_arg argc argv index d = (if ?v = 0 then d else scast ?v)"
    using assms by (rule get_arg_present)
  moreover
  { assume neg: "sint ?v < 0"
    then have nz: "?v \<noteq> 0" by auto
    have g: "get_arg argc argv index d = scast ?v" using eq nz by simp
    have "sint (scast ?v :: 64 word) < 0" using neg by (simp add: sint_scast_long)
    then have u: "uint (scast ?v :: 64 word) = 2 ^ 64 + sint ?v"
      by (simp add: uint_of_negative sint_scast_long)
    have lo: "- (2 ^ 31) \<le> sint ?v" using sint_ge [of ?v] by simp
    have "uint (get_arg argc argv index d) = 2 ^ 64 + sint ?v
          \<and> 2 ^ 64 - 2 ^ 31 \<le> uint (get_arg argc argv index d)
          \<and> (uint d < 2 ^ 64 - 2 ^ 31 \<longrightarrow> get_arg argc argv index d \<noteq> d)"
      using g u lo by auto }
  ultimately show ?thesis by blast
qed

theorem get_arg_negative_witness:
  "(2 :: int) < 3 \<and> sint (atoi ([''callbench'', ''t'', ''-5''] ! nat 2)) < 0
   \<and> get_arg 3 [''callbench'', ''t'', ''-5''] 2 100000 = 18446744073709551611
   \<and> get_arg 3 [''callbench'', ''t'', ''-5''] 2 100000 \<noteq> 100000"
  using get_arg_negative [of 2 3 "[''callbench'', ''t'', ''-5'']" 100000]
  by (simp add: atoi_def strtol_def number_prefix_def isspace_def isdigit_def
      dec_value_def digit_val_def)

subsection \<open>The loops below \<open>2^32\<close> passes\<close>

lemma counter_below: "unat (c :: 32 word) < 2 ^ 32"
  using unsigned_less [of c, where 'a = nat] by simp

lemma unat_ucast_counter: "unat (ucast (c :: 32 word) :: 64 word) = unat c"
proof -
  have "unat c < 2 ^ 64" using counter_below [of c] by simp
  then show ?thesis by (simp add: unsigned_ucast_eq take_bit_nat_eq_self)
qed

lemma counter_less: "(ucast (c :: 32 word) < (n :: 64 word)) = (unat c < unat n)"
  by (simp add: word_less_nat_alt unat_ucast_counter)

lemma counter_suc:
  assumes "unat (c :: 32 word) < m" "m < 2 ^ 32"
  shows "unat (c + 1) = Suc (unat c)"
proof -
  have "unat c + unat (1 :: 32 word) < 2 ^ LENGTH(32)" using assms by simp
  then have "unat (c + 1) = unat c + unat (1 :: 32 word)" by (simp only: unat_add_lem)
  then show ?thesis by simp
qed

lemma call_loop_closed:
  "unat call + n = unat calls \<Longrightarrow> unat calls < 2 ^ 32 \<Longrightarrow>
     call_loop b calls call w = Some (repeat_impl n b w)"
proof (induction n arbitrary: call w)
  case 0
  then show ?case by (subst call_loop.simps) (simp add: counter_less)
next
  case (Suc n)
  have lt: "unat call < unat calls" using Suc.prems by simp
  have suc: "unat (call + 1) = Suc (unat call)" using lt Suc.prems(2) by (rule counter_suc)
  have ih: "\<And>w1. call_loop b calls (call + 1) w1 = Some (repeat_impl n b w1)"
    using Suc.prems suc by (intro Suc.IH) simp_all
  show ?case
    by (subst call_loop.simps) (simp add: counter_less lt ih split: sum.splits)
qed


lemma timed_sample_closed:
  "unat calls < 2 ^ 32 \<Longrightarrow> timed_sample b calls w = Some (sample_pure (unat calls) b w)"
  by (simp add: timed_sample_def sample_pure_def call_loop_closed [where n = "unat calls"]
      split: prod.splits sum.splits)

lemma iter_loop_closed:
  "unat i + n = unat iters \<Longrightarrow> unat iters < 2 ^ 32 \<Longrightarrow> unat calls < 2 ^ 32 \<Longrightarrow>
     iter_loop b calls iters i best w = Some (iter_pure n (unat calls) b best w)"
proof (induction n arbitrary: i best w)
  case 0
  then show ?case by (subst iter_loop.simps) (simp add: counter_less)
next
  case (Suc n)
  have lt: "unat i < unat iters" using Suc.prems by simp
  have suc: "unat (i + 1) = Suc (unat i)" using lt Suc.prems(2) by (rule counter_suc)
  have ih: "\<And>best1 w1. iter_loop b calls iters (i + 1) best1 w1 = Some (iter_pure n (unat calls) b best1 w1)"
    using Suc.prems suc by (intro Suc.IH) simp_all
  show ?case
    by (subst iter_loop.simps)
       (simp add: counter_less lt ih timed_sample_closed [OF Suc.prems(3)] split: sum.splits prod.splits)
qed

lemma rep_loop_closed:
  "unat rep + n = unat reps \<Longrightarrow> unat reps < 2 ^ 32 \<Longrightarrow> unat iters < 2 ^ 32 \<Longrightarrow>
   unat calls < 2 ^ 32 \<Longrightarrow>
     rep_loop b calls iters reps rep best w = Some (rep_pure n (unat iters) calls b best w)"
proof (induction n arbitrary: rep best w)
  case 0
  then show ?case by (subst rep_loop.simps) (simp add: counter_less)
next
  case (Suc n)
  have lt: "unat rep < unat reps" using Suc.prems by simp
  have suc: "unat (rep + 1) = Suc (unat rep)" using lt Suc.prems(2) by (rule counter_suc)
  have ih: "\<And>best1 w1. rep_loop b calls iters reps (rep + 1) best1 w1 = Some (rep_pure n (unat iters) calls b best1 w1)"
    using Suc.prems suc by (intro Suc.IH) simp_all
  have it: "\<And>w1. iter_loop b calls iters 0 LONG_MAX w1 = Some (iter_pure (unat iters) (unat calls) b LONG_MAX w1)"
    using Suc.prems by (intro iter_loop_closed) simp_all
  show ?case
    by (subst rep_loop.simps) (simp add: counter_less lt ih it split: sum.splits prod.splits)
qed

lemma run_bench_ns_closed:
  "unat calls < 2 ^ 32 \<Longrightarrow> unat iters < 2 ^ 32 \<Longrightarrow> unat reps < 2 ^ 32 \<Longrightarrow>
     run_bench_ns b calls iters reps w = Some (rep_pure (unat reps) (unat iters) calls b LONG_MAX w)"
  by (simp add: run_bench_ns_def rep_loop_closed [where n = "unat reps"])

text \<open>A bound of \<open>2^32\<close> or more is never reached by the counter.\<close>

lemma counter_always_less: "2 ^ 32 \<le> unat (n :: 64 word) \<Longrightarrow> ucast (c :: 32 word) < n"
  using counter_below [of c] by (simp add: counter_less)

lemma call_loop_no_exit:
  assumes "call_loop b calls call w = Some y"
  shows "2 ^ 32 \<le> unat calls \<longrightarrow> (\<exists>f. y = Inl f)"
  by (rule call_loop.raw_induct
        [where P = "\<lambda>b calls call w y. 2 ^ 32 \<le> unat calls \<longrightarrow> (\<exists>f. y = Inl f)", OF _ assms])
     (auto simp: counter_always_less split: sum.splits dest: sym)

lemma iter_loop_no_exit:
  assumes "iter_loop b calls iters i best w = Some y"
  shows "2 ^ 32 \<le> unat iters \<longrightarrow> (\<exists>f. y = Inl f)"
  by (rule iter_loop.raw_induct
        [where P = "\<lambda>b calls iters i best w y. 2 ^ 32 \<le> unat iters \<longrightarrow> (\<exists>f. y = Inl f)", OF _ assms])
     (auto simp: counter_always_less split: sum.splits option.splits prod.splits)

lemma rep_loop_no_exit:
  assumes "rep_loop b calls iters reps rep best w = Some y"
  shows "2 ^ 32 \<le> unat reps \<longrightarrow> (\<exists>f. y = Inl f)"
  by (rule rep_loop.raw_induct
        [where P = "\<lambda>b calls iters reps rep best w y. 2 ^ 32 \<le> unat reps \<longrightarrow> (\<exists>f. y = Inl f)", OF _ assms])
     (auto simp: counter_always_less split: sum.splits option.splits prod.splits if_splits)

subsection \<open>The measured operations\<close>

lemmas os_defs = clock_gettime_def sys_open_def sys_mmap_def libc_malloc_def libc_memcpy_def
  sys_munmap_def sys_read_def sys_close_def libc_free_def

lemma time_syscall_mb_returns:
  "time_syscall_mb w = Inr (w\<lparr>clock_reads := clock_reads w + 1\<rparr>)"
  by (simp add: time_syscall_mb_def clock_gettime_def)

lemma time_implicit_mb_returns:
  "time_implicit_mb w = Inr (w\<lparr>clock_reads := clock_reads w + 1\<rparr>)"
  by (simp add: time_implicit_mb_def clock_gettime_def)

lemma file_mb_returns:
  "\<exists>w'. file_mb w = Inr w' \<and> env w' = env w \<and> clock_reads w' = clock_reads w
     \<and> invoked w' = invoked w \<and> stdout w' = stdout w \<and> stderr w' = stderr w
     \<and> fds w' = fds w \<and> mappings w' = mappings w \<and> buffers w' = buffers w"
  by (simp add: file_mb_def os_defs Let_def split: option.splits)

lemma mmap_mb_returns:
  "mmap_mb w = Inr w' \<Longrightarrow> env w' = env w \<and> clock_reads w' = clock_reads w
     \<and> invoked w' = invoked w \<and> stdout w' = stdout w \<and> stderr w' = stderr w
     \<and> fds w' = fds w \<and> mappings w' = mappings w \<and> buffers w' = buffers w"
  by (auto simp: mmap_mb_def os_defs Let_def split: option.splits if_splits)

lemma mmap_mb_never_faults:
  "never_faults Mmap_mb (env w) \<Longrightarrow> \<exists>w'. mmap_mb w = Inr w'"
proof -
  assume nf: "never_faults Mmap_mb (env w)"
  let ?n = "length (os_calls w)"
  from nf obtain fd where o: "open_src (env w) ?n = Some fd"
    by (auto simp: never_faults_def)
  from nf obtain a where m: "mmap_src (env w) (Suc ?n) = Some a"
    by (auto simp: never_faults_def)
  from nf obtain p where b: "malloc_src (env w) (Suc (Suc ?n)) = Some p"
    by (auto simp: never_faults_def)
  show ?thesis
    by (simp add: mmap_mb_def os_defs Let_def o m b)
qed

lemma run_impl_returns:
  "run_impl b w = Inr w' \<Longrightarrow> advanced b (reads_per_call b) 1 0 w w'"
  using file_mb_returns [of "w\<lparr>invoked := invoked w @ [b]\<rparr>"]
        mmap_mb_returns [of "w\<lparr>invoked := invoked w @ [b]\<rparr>" w']
  by (cases b)
     (auto simp: run_impl_def advanced_def reads_per_call_def Let_def
        time_syscall_mb_returns time_implicit_mb_returns)

lemma run_impl_never_faults:
  "never_faults b (env w) \<Longrightarrow> \<exists>w'. run_impl b w = Inr w'"
  using file_mb_returns [of "w\<lparr>invoked := invoked w @ [b]\<rparr>"]
        mmap_mb_never_faults [of "w\<lparr>invoked := invoked w @ [b]\<rparr>"]
  by (cases b)
     (auto simp: run_impl_def Let_def time_syscall_mb_returns time_implicit_mb_returns)

lemma advanced_refl: "advanced b 0 0 0 w w"
  by (simp add: advanced_def)

lemma advanced_trans:
  "advanced b r1 n1 d1 w w1 \<Longrightarrow> advanced b r2 n2 0 w1 w2 \<Longrightarrow>
     advanced b (r1 + r2) (n1 + n2) d1 w w2"
  by (simp add: advanced_def replicate_add)

lemma repeat_impl_returns:
  "repeat_impl n b w = Inr w' \<Longrightarrow> advanced b (reads_per_call b * n) n 0 w w'"
proof (induction n arbitrary: w)
  case 0
  then show ?case by (simp add: advanced_def)
next
  case (Suc n)
  then obtain w1 where r: "run_impl b w = Inr w1" and rest: "repeat_impl n b w1 = Inr w'"
    by (auto split: sum.splits)
  from run_impl_returns [OF r] Suc.IH [OF rest] show ?case
    by (simp add: advanced_def replicate_app_Cons_same)
qed

lemma repeat_impl_total:
  "never_faults b (env w) \<Longrightarrow> \<exists>w'. repeat_impl n b w = Inr w'"
proof (induction n arbitrary: w)
  case 0
  then show ?case by simp
next
  case (Suc n)
  from run_impl_never_faults [OF Suc.prems] obtain w1 where r: "run_impl b w = Inr w1" by blast
  from run_impl_returns [OF r] have "env w1 = env w" by (simp add: advanced_def)
  with Suc.IH [of w1] Suc.prems r show ?case by simp
qed

subsection \<open>Clock arithmetic\<close>

lemma sint_of_int_long:
  "- (2 ^ 63) \<le> k \<Longrightarrow> k < 2 ^ 63 \<Longrightarrow> sint (word_of_int k :: 64 word) = k"
  by (simp add: sint_sbintrunc' signed_take_bit_int_eq_self)

lemma true_ns_of_int: "true_ns ts = word_of_int (ns_of ts)"
  by (simp add: true_ns_def ns_of_def NS_PER_SEC_def)

lemma ns_of_nonneg: "valid_reading ts \<Longrightarrow> 0 \<le> ns_of ts"
  by (simp add: valid_reading_def ns_of_def)

lemma ns_of_below: "valid_reading ts \<Longrightarrow> ns_of ts < 2 ^ 63"
  by (simp add: valid_reading_def)

lemma monotonic_clock_le:
  assumes "monotonic_clock e" "k \<le> k'"
  shows "ns_of (clock_src e k) \<le> ns_of (clock_src e k')"
  using assms(2)
proof (induction k' rule: dec_induct)
  case base
  show ?case by simp
next
  case (step n)
  have "ns_of (clock_src e n) \<le> ns_of (clock_src e (Suc n))"
    using assms(1) by (simp add: monotonic_clock_def)
  with step.IH show ?case by (rule order_trans)
qed

lemma elapsed_word:
  assumes "monotonic_clock e" "k \<le> k'"
  shows "sint (true_ns (clock_src e k') - true_ns (clock_src e k))
           = ns_of (clock_src e k') - ns_of (clock_src e k)"
proof -
  have v: "valid_reading (clock_src e k)" "valid_reading (clock_src e k')"
    using assms(1) by (simp_all add: monotonic_clock_def)
  have le: "ns_of (clock_src e k) \<le> ns_of (clock_src e k')"
    using assms by (rule monotonic_clock_le)
  have eq: "true_ns (clock_src e k') - true_ns (clock_src e k)
          = word_of_int (ns_of (clock_src e k') - ns_of (clock_src e k))"
    by (simp add: true_ns_of_int)
  have lo: "- (2 ^ 63) \<le> ns_of (clock_src e k') - ns_of (clock_src e k)"
    using le by simp
  have hi: "ns_of (clock_src e k') - ns_of (clock_src e k) < 2 ^ 63"
    using ns_of_nonneg [OF v(1)] ns_of_below [OF v(2)] by simp
  show ?thesis by (simp only: eq sint_of_int_long [OF lo hi])
qed

lemma elapsed_at_range:
  assumes "monotonic_clock e"
  shows "0 \<le> elapsed_at e b c k" "elapsed_at e b c k < 2 ^ 63"
proof -
  have v: "valid_reading (clock_src e k)" "valid_reading (clock_src e (k + 1 + reads_per_call b * c))"
    using assms by (simp_all add: monotonic_clock_def)
  show "0 \<le> elapsed_at e b c k"
    using monotonic_clock_le [OF assms, of k "k + 1 + reads_per_call b * c"]
    by (simp add: elapsed_at_def)
  show "elapsed_at e b c k < 2 ^ 63"
    using ns_of_nonneg [OF v(1)] ns_of_below [OF v(2)] by (simp add: elapsed_at_def)
qed

lemma sint_signed_min:
  "sint (if (e :: 64 word) <s best then e else best) = min (sint best) (sint e)"
  by (simp add: word_sless_alt min_def)

lemma uint_of_nonneg:
  fixes y :: "64 word"
  assumes "0 \<le> sint y"
  shows "uint y = sint y"
proof -
  have hi: "sint y < 2 ^ 63" using sint_lt [of y] by simp
  have "uint y = sint y mod 2 ^ 64" by (simp add: uint_sint take_bit_eq_mod)
  also have "\<dots> = sint y" using assms hi by (intro mod_pos_pos_trivial) simp_all
  finally show ?thesis .
qed

lemma sint_of_small:
  fixes y :: "64 word"
  assumes "uint y < 2 ^ 63"
  shows "sint y = uint y"
proof -
  have lo: "- (2 ^ 63) \<le> uint y" by (rule order_trans [of _ 0]) simp_all
  have "sint y = signed_take_bit 63 (uint y)" by (simp add: sint_uint)
  also have "\<dots> = uint y" using lo assms by (rule signed_take_bit_int_eq_self)
  finally show ?thesis .
qed

lemma int_div_le_self: "0 \<le> (a :: int) \<Longrightarrow> 0 \<le> c \<Longrightarrow> a div c \<le> a"
proof (cases "c = 0")
  case True
  assume "0 \<le> a"
  with True show ?thesis by simp
next
  case False
  assume a: "0 \<le> a" and "0 \<le> c"
  with False have "a div c \<le> a div 1" by (intro zdiv_mono2) simp_all
  then show ?thesis by simp
qed

lemma sint_unsigned_div:
  fixes x c :: "64 word"
  assumes "0 \<le> sint x"
  shows "sint (x div c) = sint x div uint c"
proof -
  have ux: "uint x = sint x" using assms by (rule uint_of_nonneg)
  have d: "uint (x div c) = uint x div uint c" by (rule uint_div_distrib)
  have "uint x div uint c \<le> uint x" by (rule int_div_le_self) simp_all
  moreover have "uint x < 2 ^ 63" using ux sint_lt [of x] by simp
  ultimately have "uint (x div c) < 2 ^ 63" using d by simp
  then have "sint (x div c) = uint (x div c)" by (rule sint_of_small)
  then show ?thesis using d ux by simp
qed

lemma trunc_div_nonneg: "0 \<le> a \<Longrightarrow> 0 \<le> b \<Longrightarrow> trunc_div a b = a div b"
  by (cases "a = 0"; cases "b = 0") (simp_all add: trunc_div_def sgn_if)

subsection \<open>The value of the timing loop\<close>

lemma sample_pure_returns:
  assumes "sample_pure c b w = Inr (e, w')"
  shows "advanced b (sample_reads b c) c 0 w w'"
    and "e = true_ns (clock_src (env w) (clock_reads w + 1 + reads_per_call b * c))
             - true_ns (clock_src (env w) (clock_reads w))"
proof -
  let ?w1 = "w\<lparr>clock_reads := clock_reads w + 1\<rparr>"
  from assms obtain w2 where r: "repeat_impl c b ?w1 = Inr w2"
    and e: "e = true_ns (clock_src (env w2) (clock_reads w2)) - true_ns (clock_src (env w) (clock_reads w))"
    and w': "w' = w2\<lparr>clock_reads := clock_reads w2 + 1\<rparr>"
    by (auto simp: sample_pure_def clock_gettime_def split: sum.splits)
  from repeat_impl_returns [OF r] have a: "advanced b (reads_per_call b * c) c 0 ?w1 w2" .
  show "advanced b (sample_reads b c) c 0 w w'"
    using a by (simp add: advanced_def w' sample_reads_def)
  show "e = true_ns (clock_src (env w) (clock_reads w + 1 + reads_per_call b * c))
             - true_ns (clock_src (env w) (clock_reads w))"
    using a by (simp add: advanced_def e add.commute)
qed

lemma sample_pure_total:
  "never_faults b (env w) \<Longrightarrow> \<exists>e w'. sample_pure c b w = Inr (e, w')"
  using repeat_impl_total [of b "w\<lparr>clock_reads := clock_reads w + 1\<rparr>" c]
  by (auto simp: sample_pure_def clock_gettime_def)

lemma sample_pure_elapsed:
  assumes "sample_pure c b w = Inr (e, w')" "monotonic_clock (env w)"
  shows "sint e = elapsed_at (env w) b c (clock_reads w)"
  using sample_pure_returns(2) [OF assms(1)]
        elapsed_word [OF assms(2), of "clock_reads w" "clock_reads w + 1 + reads_per_call b * c"]
  by (simp add: elapsed_at_def)

lemma iter_pure_returns:
  assumes "iter_pure n c b best w = Inr (best', w')"
  shows "advanced b (n * sample_reads b c) (n * c) 0 w w'"
  using assms
proof (induction n arbitrary: best w)
  case 0
  then show ?case by (simp add: advanced_def)
next
  case (Suc n)
  then obtain e w1 where s: "sample_pure c b w = Inr (e, w1)"
    and rest: "iter_pure n c b (if e <s best then e else best) w1 = Inr (best', w')"
    by (auto split: sum.splits)
  from sample_pure_returns(1) [OF s] Suc.IH [OF rest] show ?case
    by (simp add: advanced_def replicate_add)
qed

lemma iter_pure_value:
  assumes "iter_pure n c b best w = Inr (best', w')" "monotonic_clock (env w)"
  shows "sint best' = foldl min (sint best)
           (map (\<lambda>j. elapsed_at (env w) b c (clock_reads w + j * sample_reads b c)) [0..<n])"
  using assms
proof (induction n arbitrary: best w)
  case 0
  then show ?case by simp
next
  case (Suc n)
  then obtain e w1 where s: "sample_pure c b w = Inr (e, w1)"
    and rest: "iter_pure n c b (if e <s best then e else best) w1 = Inr (best', w')"
    by (auto split: sum.splits)
  from sample_pure_returns(1) [OF s]
  have env1: "env w1 = env w" and reads1: "clock_reads w1 = clock_reads w + sample_reads b c"
    by (simp_all add: advanced_def)
  have el: "sint e = elapsed_at (env w) b c (clock_reads w)"
    using s Suc.prems(2) by (rule sample_pure_elapsed)
  have mc: "monotonic_clock (env w1)" using Suc.prems(2) env1 by simp
  have "sint best' = foldl min (min (sint best) (sint e))
           (map (\<lambda>j. elapsed_at (env w) b c (clock_reads w + sample_reads b c + j * sample_reads b c)) [0..<n])"
    using Suc.IH [OF rest mc] by (simp add: env1 reads1 sint_signed_min)
  then show ?case
    by (simp add: map_upt_Suc el add.assoc del: upt_Suc)
qed

lemma iter_pure_total:
  "never_faults b (env w) \<Longrightarrow> \<exists>best' w'. iter_pure n c b best w = Inr (best', w')"
proof (induction n arbitrary: best w)
  case 0
  then show ?case by simp
next
  case (Suc n)
  from sample_pure_total [OF Suc.prems] obtain e w1 where s: "sample_pure c b w = Inr (e, w1)"
    by blast
  from sample_pure_returns(1) [OF s] have "env w1 = env w" by (simp add: advanced_def)
  with Suc.IH [of w1] Suc.prems s show ?case by simp
qed

lemma foldl_min_Min:
  fixes a :: int
  assumes "xs \<noteq> []" "\<forall>x\<in>set xs. x \<le> a"
  shows "foldl min a xs = Min (set xs)"
proof -
  have "foldl min a xs = fold min xs a"
    by (simp add: foldl_conv_fold min.commute)
  also have "\<dots> = Min (set (a # xs))" by (simp only: Min.set_eq_fold)
  also have "\<dots> = min a (Min (set xs))" using assms(1) by simp
  also have "\<dots> = Min (set xs)"
  proof -
    have "Min (set xs) \<in> set xs" using assms(1) by (intro Min_in) simp_all
    then have "Min (set xs) \<le> a" using assms(2) by blast
    then show ?thesis by (rule min_absorb2)
  qed
  finally show ?thesis .
qed

lemma best_of_rep_range:
  assumes "monotonic_clock e" "0 < m"
  shows "0 \<le> best_of_rep e b c m k" "best_of_rep e b c m k < 2 ^ 63"
proof -
  let ?xs = "map (\<lambda>i. elapsed_at e b c (k + i * sample_reads b c)) [0..<m]"
  have ne: "?xs \<noteq> []" using assms(2) by simp
  then have "Min (set ?xs) \<in> set ?xs" by (intro Min_in) simp_all
  then obtain i where mi: "Min (set ?xs) = elapsed_at e b c (k + i * sample_reads b c)"
    by auto
  have lo: "0 \<le> Min (set ?xs)" and hi: "Min (set ?xs) < 2 ^ 63"
    using elapsed_at_range [OF assms(1), of b c "k + i * sample_reads b c"] mi by simp_all
  have td: "best_of_rep e b c m k = Min (set ?xs) div int c"
    using lo by (simp add: best_of_rep_def trunc_div_nonneg)
  have "0 \<le> Min (set ?xs) div int c" using lo by (simp add: div_int_pos_iff)
  then show "0 \<le> best_of_rep e b c m k" by (simp only: td)
  have "Min (set ?xs) div int c \<le> Min (set ?xs)" using lo by (intro int_div_le_self) simp_all
  then have "Min (set ?xs) div int c < 2 ^ 63" using hi by (rule le_less_trans)
  then show "best_of_rep e b c m k < 2 ^ 63" by (simp only: td)
qed

lemma rep_pure_returns:
  assumes "rep_pure n m calls b best w = Inr (best', w')"
  shows "advanced b (n * (m * sample_reads b (unat calls))) (n * (m * unat calls)) n w w'"
  using assms
proof (induction n arbitrary: best w)
  case 0
  then show ?case by (simp add: advanced_def)
next
  case (Suc n)
  then obtain best2 w1 where it: "iter_pure m (unat calls) b LONG_MAX w = Inr (best2, w1)"
    and rest: "rep_pure n m calls b (if best2 div calls <s best then best2 div calls else best)
                 (usleep (US_PER_SEC div 8) (putchar CHR ''.'' w1)) = Inr (best', w')"
    by (auto split: sum.splits if_splits)
  from iter_pure_returns [OF it] Suc.IH [OF rest] show ?case
    by (simp add: advanced_def replicate_add usleep_def putchar_def replicate_app_Cons_same)
qed

lemma rep_pure_value:
  assumes "rep_pure n m calls b best w = Inr (best', w')" "monotonic_clock (env w)" "0 < m"
  shows "sint best' = foldl min (sint best)
           (map (\<lambda>r. best_of_rep (env w) b (unat calls) m
                         (clock_reads w + r * (m * sample_reads b (unat calls)))) [0..<n])"
  using assms(1,2)
proof (induction n arbitrary: best w)
  case 0
  then show ?case by simp
next
  case (Suc n)
  let ?c = "unat calls"
  let ?w2 = "\<lambda>w1. usleep (US_PER_SEC div 8) (putchar CHR ''.'' w1)"
  from Suc.prems(1) obtain best2 w1 where it: "iter_pure m ?c b LONG_MAX w = Inr (best2, w1)"
    and rest: "rep_pure n m calls b (if best2 div calls <s best then best2 div calls else best)
                 (?w2 w1) = Inr (best', w')"
    by (auto split: sum.splits if_splits)
  from iter_pure_returns [OF it]
  have env1: "env (?w2 w1) = env w"
    and reads1: "clock_reads (?w2 w1) = clock_reads w + m * sample_reads b ?c"
    by (simp_all add: advanced_def usleep_def putchar_def)
  let ?xs = "map (\<lambda>j. elapsed_at (env w) b ?c (clock_reads w + j * sample_reads b ?c)) [0..<m]"
  have ne: "?xs \<noteq> []" using assms(3) by simp
  have range: "\<forall>x\<in>set ?xs. 0 \<le> x \<and> x \<le> sint LONG_MAX"
  proof
    fix x assume "x \<in> set ?xs"
    then obtain j where x: "x = elapsed_at (env w) b ?c (clock_reads w + j * sample_reads b ?c)"
      by auto
    show "0 \<le> x \<and> x \<le> sint LONG_MAX"
      using elapsed_at_range [OF Suc.prems(2), of b ?c "clock_reads w + j * sample_reads b ?c"]
      by (simp add: x LONG_MAX_def)
  qed
  have b2: "sint best2 = Min (set ?xs)"
    using iter_pure_value [OF it Suc.prems(2)] foldl_min_Min [OF ne, of "sint LONG_MAX"] range
    by simp
  have "Min (set ?xs) \<in> set ?xs" using ne by (intro Min_in) simp_all
  with range have "0 \<le> Min (set ?xs)" by blast
  then have nonneg: "0 \<le> sint best2" by (simp only: b2)
  have "sint (best2 div calls) = sint best2 div uint calls"
    using nonneg by (rule sint_unsigned_div)
  then have dv: "sint (best2 div calls) = best_of_rep (env w) b ?c m (clock_reads w)"
    using nonneg b2 by (simp add: best_of_rep_def trunc_div_nonneg)
  have mc: "monotonic_clock (env (?w2 w1))" using Suc.prems(2) env1 by simp
  have "sint best' = foldl min (min (sint best) (sint (best2 div calls)))
           (map (\<lambda>r. best_of_rep (env w) b ?c m
                   (clock_reads w + m * sample_reads b ?c + r * (m * sample_reads b ?c))) [0..<n])"
    using Suc.IH [OF rest mc] by (simp add: env1 reads1 sint_signed_min)
  then show ?case
    by (simp add: map_upt_Suc dv add.assoc del: upt_Suc)
qed

lemma rep_pure_total:
  "never_faults b (env w) \<Longrightarrow> calls \<noteq> 0 \<Longrightarrow> \<exists>best' w'. rep_pure n m calls b best w = Inr (best', w')"
proof (induction n arbitrary: best w)
  case 0
  then show ?case by simp
next
  case (Suc n)
  from iter_pure_total [OF Suc.prems(1)] obtain best2 w1
    where it: "iter_pure m (unat calls) b LONG_MAX w = Inr (best2, w1)"
    by blast
  from iter_pure_returns [OF it]
  have "env (usleep (US_PER_SEC div 8) (putchar CHR ''.'' w1)) = env w"
    by (simp add: advanced_def usleep_def putchar_def)
  with Suc.IH [of "usleep (US_PER_SEC div 8) (putchar CHR ''.'' w1)"] Suc.prems it
  show ?case by simp
qed

subsection \<open>Termination\<close>

lemma timed_sample_no_exit:
  assumes "timed_sample b calls w = Some y" "2 ^ 32 \<le> unat calls"
  shows "\<exists>f. y = Inl f"
  using assms call_loop_no_exit [of b calls 0 "snd (clock_gettime w)"]
  by (auto simp: timed_sample_def split: prod.splits option.splits sum.splits)

lemma iter_loop_no_exit_calls:
  assumes "iter_loop b calls iters i best w = Some y" "2 ^ 32 \<le> unat calls" "unat i < unat iters"
  shows "\<exists>f. y = Inl f"
proof -
  from assms(1) have "(case timed_sample b calls w of
           None \<Rightarrow> None
         | Some (Inl f) \<Rightarrow> Some (Inl f)
         | Some (Inr (elapsed_ns, w1)) \<Rightarrow>
             iter_loop b calls iters (i + 1)
               (if elapsed_ns <s best then elapsed_ns else best) w1) = Some y"
    by (subst (asm) iter_loop.simps) (simp add: counter_less assms(3))
  then show ?thesis
    using timed_sample_no_exit [OF _ assms(2), of b w]
    by (auto split: option.splits sum.splits)
qed

lemma rep_loop_no_exit_inner:
  assumes "rep_loop b calls iters reps rep best w = Some y" "unat rep < unat reps"
    and "2 ^ 32 \<le> unat iters \<or> (iters \<noteq> 0 \<and> 2 ^ 32 \<le> unat calls)"
  shows "\<exists>f. y = Inl f"
proof -
  from assms(1) have c: "(case iter_loop b calls iters 0 LONG_MAX w of
           None \<Rightarrow> None
         | Some (Inl f) \<Rightarrow> Some (Inl f)
         | Some (Inr (best_ns2, w1)) \<Rightarrow>
             if calls = 0 then Some (Inl SIGFPE)
             else rep_loop b calls iters reps (rep + 1)
                    (if best_ns2 div calls <s best then best_ns2 div calls else best)
                    (usleep (US_PER_SEC div 8) (putchar CHR ''.'' w1))) = Some y"
    by (subst (asm) rep_loop.simps) (simp add: counter_less assms(2))
  have "\<And>z. iter_loop b calls iters 0 LONG_MAX w = Some z \<Longrightarrow> \<exists>f. z = Inl f"
  proof -
    fix z assume z: "iter_loop b calls iters 0 LONG_MAX w = Some z"
    from assms(3) show "\<exists>f. z = Inl f"
    proof
      assume "2 ^ 32 \<le> unat iters"
      with iter_loop_no_exit [OF z] show ?thesis by simp
    next
      assume a: "iters \<noteq> 0 \<and> 2 ^ 32 \<le> unat calls"
      then have "unat (0 :: 32 word) < unat iters" by (simp add: unat_gt_0)
      with iter_loop_no_exit_calls [OF z] a show ?thesis by simp
    qed
  qed
  with c show ?thesis by (auto split: option.splits sum.splits)
qed

lemma run_bench_ns_no_exit:
  assumes "run_bench_ns b calls iters reps w = Some y" "out_of_range calls iters reps"
  shows "\<exists>f. y = Inl f"
proof (cases "2 ^ 32 \<le> unat reps")
  case True
  with rep_loop_no_exit [of b calls iters reps 0 LONG_MAX w y] assms(1) show ?thesis
    by (simp add: run_bench_ns_def)
next
  case False
  with assms(2) have r: "reps \<noteq> 0"
    and i: "2 ^ 32 \<le> unat iters \<or> (iters \<noteq> 0 \<and> 2 ^ 32 \<le> unat calls)"
    by (auto simp: out_of_range_def)
  from r have "unat (0 :: 32 word) < unat reps" by (simp add: unat_gt_0)
  with rep_loop_no_exit_inner [of b calls iters reps 0 LONG_MAX w y] assms(1) i show ?thesis
    by (simp add: run_bench_ns_def)
qed

text \<open>An operation that is never killed leaves the loops only by their exit.\<close>

lemma call_loop_no_fault:
  assumes "call_loop b calls call w = Some y"
  shows "never_faults b (env w) \<longrightarrow> (\<exists>w'. y = Inr w' \<and> env w' = env w)"
proof (rule call_loop.raw_induct
        [where P = "\<lambda>b calls call w y. never_faults b (env w) \<longrightarrow> (\<exists>w'. y = Inr w' \<and> env w' = env w)",
         OF _ assms])
  fix call_loop' :: "bench_impl \<Rightarrow> 64 word \<Rightarrow> 32 word \<Rightarrow> world \<Rightarrow> (fault + world) option"
  fix b calls call w y
  assume ih: "\<And>b calls call w y. call_loop' b calls call w = Some y \<Longrightarrow>
                never_faults b (env w) \<longrightarrow> (\<exists>w'. y = Inr w' \<and> env w' = env w)"
    and step: "(if ucast call < calls then
        (case run_impl b w of
           Inl f \<Rightarrow> Some (Inl f)
         | Inr w1 \<Rightarrow> call_loop' b calls (call + 1) w1)
      else Some (Inr w)) = Some y"
  show "never_faults b (env w) \<longrightarrow> (\<exists>w'. y = Inr w' \<and> env w' = env w)"
  proof
    assume nf: "never_faults b (env w)"
    from run_impl_never_faults [OF nf] obtain w1 where r: "run_impl b w = Inr w1" by blast
    from run_impl_returns [OF r] have e1: "env w1 = env w" by (simp add: advanced_def)
    show "\<exists>w'. y = Inr w' \<and> env w' = env w"
    proof (cases "ucast call < calls")
      case True
      with step r have "call_loop' b calls (call + 1) w1 = Some y" by simp
      from ih [OF this] nf e1 show ?thesis by simp
    next
      case False
      with step show ?thesis by auto
    qed
  qed
qed


lemma timed_sample_no_fault:
  assumes "timed_sample b calls w = Some y" "never_faults b (env w)"
  shows "\<exists>e w'. y = Inr (e, w') \<and> env w' = env w"
proof -
  let ?w1 = "w\<lparr>clock_reads := clock_reads w + 1\<rparr>"
  from assms(1) obtain z where z: "call_loop b calls 0 ?w1 = Some z"
    by (auto simp: timed_sample_def clock_gettime_def split: option.splits)
  from call_loop_no_fault [OF z] assms(2) obtain w2 where "z = Inr w2" "env w2 = env w"
    by auto
  with assms(1) z show ?thesis
    by (auto simp: timed_sample_def clock_gettime_def)
qed

lemma iter_loop_no_fault:
  assumes "iter_loop b calls iters i best w = Some y"
  shows "never_faults b (env w) \<longrightarrow> (\<exists>r w'. y = Inr (r, w') \<and> env w' = env w)"
proof (rule iter_loop.raw_induct
        [where P = "\<lambda>b calls iters i best w y.
            never_faults b (env w) \<longrightarrow> (\<exists>r w'. y = Inr (r, w') \<and> env w' = env w)",
         OF _ assms])
  fix iter_loop' :: "bench_impl \<Rightarrow> 64 word \<Rightarrow> 64 word \<Rightarrow> 32 word \<Rightarrow> 64 word \<Rightarrow> world \<Rightarrow> (64 word) result"
  fix b calls iters i best w y
  assume ih: "\<And>b calls iters i best w y. iter_loop' b calls iters i best w = Some y \<Longrightarrow>
                never_faults b (env w) \<longrightarrow> (\<exists>r w'. y = Inr (r, w') \<and> env w' = env w)"
    and step: "(if ucast i < iters then
        (case timed_sample b calls w of
           None \<Rightarrow> None
         | Some (Inl f) \<Rightarrow> Some (Inl f)
         | Some (Inr (elapsed_ns, w1)) \<Rightarrow>
             iter_loop' b calls iters (i + 1)
               (if elapsed_ns <s best then elapsed_ns else best) w1)
      else Some (Inr (best, w))) = Some y"
  show "never_faults b (env w) \<longrightarrow> (\<exists>r w'. y = Inr (r, w') \<and> env w' = env w)"
  proof
    assume nf: "never_faults b (env w)"
    show "\<exists>r w'. y = Inr (r, w') \<and> env w' = env w"
    proof (cases "ucast i < iters")
      case True
      with step obtain z where z: "timed_sample b calls w = Some z"
        by (auto split: option.splits)
      from timed_sample_no_fault [OF z nf] obtain e w1 where zz: "z = Inr (e, w1)"
        and e1: "env w1 = env w" by blast
      from step True z zz
      have "iter_loop' b calls iters (i + 1) (if e <s best then e else best) w1 = Some y"
        by simp
      from ih [OF this] nf e1 show ?thesis by simp
    next
      case False
      with step show ?thesis by auto
    qed
  qed
qed

lemma rep_loop_no_fault:
  assumes "rep_loop b calls iters reps rep best w = Some y"
  shows "never_faults b (env w) \<and> calls \<noteq> 0 \<longrightarrow> (\<exists>r w'. y = Inr (r, w') \<and> env w' = env w)"
proof (rule rep_loop.raw_induct
        [where P = "\<lambda>b calls iters reps rep best w y.
            never_faults b (env w) \<and> calls \<noteq> 0 \<longrightarrow> (\<exists>r w'. y = Inr (r, w') \<and> env w' = env w)",
         OF _ assms])
  fix rep_loop' :: "bench_impl \<Rightarrow> 64 word \<Rightarrow> 64 word \<Rightarrow> 64 word \<Rightarrow> 32 word \<Rightarrow> 64 word \<Rightarrow> world \<Rightarrow> (64 word) result"
  fix b calls iters reps rep best w y
  assume ih: "\<And>b calls iters reps rep best w y. rep_loop' b calls iters reps rep best w = Some y \<Longrightarrow>
                never_faults b (env w) \<and> calls \<noteq> 0 \<longrightarrow> (\<exists>r w'. y = Inr (r, w') \<and> env w' = env w)"
    and step: "(if ucast rep < reps then
        (case iter_loop b calls iters 0 LONG_MAX w of
           None \<Rightarrow> None
         | Some (Inl f) \<Rightarrow> Some (Inl f)
         | Some (Inr (best_ns2, w1)) \<Rightarrow>
             if calls = 0 then Some (Inl SIGFPE)
             else rep_loop' b calls iters reps (rep + 1)
                    (if best_ns2 div calls <s best then best_ns2 div calls else best)
                    (usleep (US_PER_SEC div 8) (putchar CHR ''.'' w1)))
      else Some (Inr (best, w))) = Some y"
  show "never_faults b (env w) \<and> calls \<noteq> 0 \<longrightarrow> (\<exists>r w'. y = Inr (r, w') \<and> env w' = env w)"
  proof
    assume a: "never_faults b (env w) \<and> calls \<noteq> 0"
    show "\<exists>r w'. y = Inr (r, w') \<and> env w' = env w"
    proof (cases "ucast rep < reps")
      case True
      with step obtain z where z: "iter_loop b calls iters 0 LONG_MAX w = Some z"
        by (auto split: option.splits)
      from iter_loop_no_fault [OF z] a obtain best2 w1 where zz: "z = Inr (best2, w1)"
        and e1: "env w1 = env w" by blast
      let ?w2 = "usleep (US_PER_SEC div 8) (putchar CHR ''.'' w1)"
      have e2: "env ?w2 = env w" using e1 by (simp add: usleep_def putchar_def)
      from step True z zz a
      have "rep_loop' b calls iters reps (rep + 1)
              (if best2 div calls <s best then best2 div calls else best) ?w2 = Some y"
        by simp
      from ih [OF this] a e2 show ?thesis by simp
    next
      case False
      with step show ?thesis by auto
    qed
  qed
qed

lemma run_bench_ns_diverges:
  assumes "out_of_range calls iters reps" "never_faults b (env w)" "calls \<noteq> 0"
  shows "run_bench_ns b calls iters reps w = None"
proof (cases "run_bench_ns b calls iters reps w")
  case None
  then show ?thesis .
next
  case (Some y)
  from run_bench_ns_no_exit [OF Some assms(1)] obtain f where "y = Inl f" by blast
  moreover from rep_loop_no_fault [of b calls iters reps 0 LONG_MAX w y] Some assms(2,3)
  obtain r w' where "y = Inr (r, w')" by (auto simp: run_bench_ns_def)
  ultimately show ?thesis by simp
qed

lemma run_bench_ns_total:
  assumes "unat calls < 2 ^ 32" "unat iters < 2 ^ 32" "unat reps < 2 ^ 32"
    and "never_faults b (env w)" "calls \<noteq> 0"
  shows "\<exists>r w'. run_bench_ns b calls iters reps w = Some (Inr (r, w'))"
  using rep_pure_total [OF assms(4,5), of "unat reps" "unat iters" LONG_MAX]
  by (auto simp: run_bench_ns_closed [OF assms(1-3)])

lemma in_range_if_returns:
  assumes "run_bench_ns b calls iters reps w = Some (Inr v)" "iters \<noteq> 0" "reps \<noteq> 0"
  shows "unat calls < 2 ^ 32 \<and> unat iters < 2 ^ 32 \<and> unat reps < 2 ^ 32"
proof (rule ccontr)
  assume "\<not> ?thesis"
  with assms(2,3) have "out_of_range calls iters reps"
    by (auto simp: out_of_range_def not_less)
  from run_bench_ns_no_exit [OF assms(1) this] show False by simp
qed

text \<open>
  Claim C10. With \<open>calls\<close>, \<open>iters\<close> and \<open>reps\<close> all below \<open>2^32\<close>,
  \<^verbatim>\<open>run_bench_ns\<close> terminates, and it returns when moreover the operation is never
  killed and \<open>calls\<close> is not 0. A loop whose bound is \<open>2^32\<close> or more never exits,
  from any value of its counter: the 32-bit counter stays below the 64-bit bound. So
  \<^verbatim>\<open>run_bench_ns\<close> never returns when \<open>reps\<close> is that large, or \<open>iters\<close> is and
  \<open>reps \<ge> 1\<close>, or \<open>calls\<close> is and \<open>iters \<ge> 1\<close>, \<open>reps \<ge> 1\<close>; it then runs forever
  unless the operation is killed.
\<close>

theorem run_bench_ns_termination:
  "(unat calls < 2 ^ 32 \<and> unat iters < 2 ^ 32 \<and> unat reps < 2 ^ 32 \<longrightarrow>
      run_bench_ns b calls iters reps w \<noteq> None
      \<and> (never_faults b (env w) \<and> calls \<noteq> 0 \<longrightarrow>
           (\<exists>r w'. run_bench_ns b calls iters reps w = Some (Inr (r, w')))))
   \<and> (2 ^ 32 \<le> unat reps \<longrightarrow> (\<forall>v. rep_loop b calls iters reps rep best w \<noteq> Some (Inr v)))
   \<and> (2 ^ 32 \<le> unat iters \<longrightarrow> (\<forall>v. iter_loop b calls iters i best w \<noteq> Some (Inr v)))
   \<and> (2 ^ 32 \<le> unat calls \<longrightarrow> (\<forall>v. call_loop b calls call w \<noteq> Some (Inr v)))
   \<and> (out_of_range calls iters reps \<longrightarrow>
        (\<forall>v. run_bench_ns b calls iters reps w \<noteq> Some (Inr v))
        \<and> (never_faults b (env w) \<and> calls \<noteq> 0 \<longrightarrow> run_bench_ns b calls iters reps w = None))"
proof (intro conjI impI allI)
  assume "unat calls < 2 ^ 32 \<and> unat iters < 2 ^ 32 \<and> unat reps < 2 ^ 32"
  then show "run_bench_ns b calls iters reps w \<noteq> None"
    by (simp add: run_bench_ns_closed)
next
  assume "unat calls < 2 ^ 32 \<and> unat iters < 2 ^ 32 \<and> unat reps < 2 ^ 32"
    and "never_faults b (env w) \<and> calls \<noteq> 0"
  then show "\<exists>r w'. run_bench_ns b calls iters reps w = Some (Inr (r, w'))"
    by (intro run_bench_ns_total) simp_all
next
  fix v assume "2 ^ 32 \<le> unat reps"
  with rep_loop_no_exit [of b calls iters reps rep best w "Inr v"]
  show "rep_loop b calls iters reps rep best w \<noteq> Some (Inr v)" by auto
next
  fix v assume "2 ^ 32 \<le> unat iters"
  with iter_loop_no_exit [of b calls iters i best w "Inr v"]
  show "iter_loop b calls iters i best w \<noteq> Some (Inr v)" by auto
next
  fix v assume "2 ^ 32 \<le> unat calls"
  with call_loop_no_exit [of b calls call w "Inr v"]
  show "call_loop b calls call w \<noteq> Some (Inr v)" by auto
next
  fix v assume "out_of_range calls iters reps"
  with run_bench_ns_no_exit [of b calls iters reps w "Inr v"]
  show "run_bench_ns b calls iters reps w \<noteq> Some (Inr v)" by auto
next
  assume "out_of_range calls iters reps" "never_faults b (env w) \<and> calls \<noteq> 0"
  then show "run_bench_ns b calls iters reps w = None"
    by (intro run_bench_ns_diverges) simp_all
qed

theorem run_bench_ns_termination_witness:
  "run_bench_ns Time_syscall_mb 1000 4 1 world0 \<noteq> None
   \<and> run_bench_ns Time_syscall_mb 4294967296 1 1 world0 = None
   \<and> run_bench_ns File_mb 1 4294967296 1 world0 = None
   \<and> run_bench_ns Time_implicit_mb 1 1 18446744073709551611 world0 = None"
  using run_bench_ns_termination [of 1000 4 1 Time_syscall_mb world0]
        run_bench_ns_termination [of 4294967296 1 1 Time_syscall_mb world0]
        run_bench_ns_termination [of 1 4294967296 1 File_mb world0]
        run_bench_ns_termination [of 1 1 18446744073709551611 Time_implicit_mb world0]
  by (simp add: out_of_range_def never_faults_def)

subsection \<open>The minimum of minimums\<close>

lemma run_bench_ns_returns:
  assumes "run_bench_ns b calls iters reps w = Some (Inr (r, w'))" "iters \<noteq> 0" "reps \<noteq> 0"
  shows "rep_pure (unat reps) (unat iters) calls b LONG_MAX w = Inr (r, w')"
    and "advanced b (unat reps * (unat iters * sample_reads b (unat calls)))
           (unat reps * (unat iters * unat calls)) (unat reps) w w'"
    and "calls \<noteq> 0"
proof -
  from in_range_if_returns [OF assms] have rng:
    "unat calls < 2 ^ 32" "unat iters < 2 ^ 32" "unat reps < 2 ^ 32" by simp_all
  from assms(1) show p: "rep_pure (unat reps) (unat iters) calls b LONG_MAX w = Inr (r, w')"
    by (simp add: run_bench_ns_closed [OF rng])
  from rep_pure_returns [OF p]
  show "advanced b (unat reps * (unat iters * sample_reads b (unat calls)))
           (unat reps * (unat iters * unat calls)) (unat reps) w w'" .
  from assms(3) obtain n where n: "unat reps = Suc n"
    by (cases "unat reps") (auto simp: unat_eq_0)
  from p show "calls \<noteq> 0"
    by (auto simp: n split: sum.splits if_splits)
qed

lemma min_of_mins_range:
  assumes "monotonic_clock e" "0 < m" "0 < n"
  shows "0 \<le> min_of_mins e b c m n k"
proof -
  let ?xs = "map (\<lambda>r. best_of_rep e b c m (k + r * (m * sample_reads b c))) [0..<n]"
  have "?xs \<noteq> []" using assms(3) by simp
  then have "Min (set ?xs) \<in> set ?xs" by (intro Min_in) simp_all
  then obtain r where "Min (set ?xs) = best_of_rep e b c m (k + r * (m * sample_reads b c))"
    by auto
  with best_of_rep_range(1) [OF assms(1,2), of b c "k + r * (m * sample_reads b c)"]
  show ?thesis by (simp only: min_of_mins_def)
qed

lemma run_bench_ns_value:
  assumes "run_bench_ns b calls iters reps w = Some (Inr (r, w'))"
    and "monotonic_clock (env w)" "iters \<noteq> 0" "reps \<noteq> 0"
  shows "sint r = min_of_mins (env w) b (unat calls) (unat iters) (unat reps) (clock_reads w)"
proof -
  have m: "0 < unat iters" and n: "0 < unat reps"
    using assms(3,4) by (simp_all add: unat_gt_0)
  let ?xs = "map (\<lambda>r. best_of_rep (env w) b (unat calls) (unat iters)
                         (clock_reads w + r * (unat iters * sample_reads b (unat calls))))
               [0..<unat reps]"
  have ne: "?xs \<noteq> []" using n by simp
  have le: "\<forall>x\<in>set ?xs. x \<le> sint LONG_MAX"
  proof
    fix x assume "x \<in> set ?xs"
    then obtain j where x: "x = best_of_rep (env w) b (unat calls) (unat iters)
                         (clock_reads w + j * (unat iters * sample_reads b (unat calls)))"
      by auto
    show "x \<le> sint LONG_MAX"
      using best_of_rep_range(2) [OF assms(2) m, of b "unat calls"
              "clock_reads w + j * (unat iters * sample_reads b (unat calls))"]
      by (simp add: x LONG_MAX_def)
  qed
  from rep_pure_value [OF run_bench_ns_returns(1) [OF assms(1,3,4)] assms(2) m]
  have "sint r = foldl min (sint LONG_MAX) ?xs" .
  also have "\<dots> = Min (set ?xs)" using ne le by (rule foldl_min_Min)
  finally show ?thesis by (simp only: min_of_mins_def)
qed

lemma monotonic_clock0: "monotonic_clock (env world0)"
  by (simp add: monotonic_clock_def world0_def env0_def clock0_def valid_reading_def ns_of_def)

text \<open>
  Claim C1. On a monotonic clock, for every operation and all \<open>calls\<close>, \<open>iters\<close>,
  \<open>reps\<close> that are at least 1, the value \<^verbatim>\<open>run_bench_ns\<close> returns is the minimum over
  the repetitions of (the minimum over the samples of the repetition of the elapsed
  nanoseconds) divided by \<open>calls\<close> with truncating division: the division is applied to
  the minimum, never to a sample. It does return when the three parameters are below
  \<open>2^32\<close> and the operation is never killed.
\<close>

theorem run_bench_ns_min_of_mins:
  assumes "monotonic_clock (env w)" "1 \<le> unat calls" "1 \<le> unat iters" "1 \<le> unat reps"
  shows "(\<forall>r w'. run_bench_ns b calls iters reps w = Some (Inr (r, w')) \<longrightarrow>
            sint r = min_of_mins (env w) b (unat calls) (unat iters) (unat reps) (clock_reads w))
       \<and> (unat calls < 2 ^ 32 \<and> unat iters < 2 ^ 32 \<and> unat reps < 2 ^ 32 \<and> never_faults b (env w) \<longrightarrow>
            (\<exists>r w'. run_bench_ns b calls iters reps w = Some (Inr (r, w'))
               \<and> sint r = min_of_mins (env w) b (unat calls) (unat iters) (unat reps) (clock_reads w)))"
proof -
  have nz: "calls \<noteq> 0" "iters \<noteq> 0" "reps \<noteq> 0" using assms(2-4) by auto
  have A: "\<And>r w'. run_bench_ns b calls iters reps w = Some (Inr (r, w')) \<Longrightarrow>
            sint r = min_of_mins (env w) b (unat calls) (unat iters) (unat reps) (clock_reads w)"
    using assms(1) nz(2,3) by (rule run_bench_ns_value [rotated])
  show ?thesis
  proof (intro conjI allI impI)
    fix r w' assume "run_bench_ns b calls iters reps w = Some (Inr (r, w'))"
    then show "sint r = min_of_mins (env w) b (unat calls) (unat iters) (unat reps) (clock_reads w)"
      by (rule A)
  next
    assume "unat calls < 2 ^ 32 \<and> unat iters < 2 ^ 32 \<and> unat reps < 2 ^ 32 \<and> never_faults b (env w)"
    then obtain r w' where "run_bench_ns b calls iters reps w = Some (Inr (r, w'))"
      using run_bench_ns_total [of calls iters reps b w] nz(1) by auto
    with A show "\<exists>r w'. run_bench_ns b calls iters reps w = Some (Inr (r, w'))
               \<and> sint r = min_of_mins (env w) b (unat calls) (unat iters) (unat reps) (clock_reads w)"
      by blast
  qed
qed

lemma upt_0_2: "[0..<(2::nat)] = [0, 1]" by (simp add: upt_conv_Cons)

theorem run_bench_ns_min_of_mins_witness:
  "monotonic_clock (env world0)
   \<and> (\<exists>r w'. run_bench_ns Time_syscall_mb 2 2 2 world0 = Some (Inr (r, w')) \<and> sint r = 9)"
proof -
  have "min_of_mins (env world0) Time_syscall_mb 2 2 2 0 = 9"
    by (simp add: min_of_mins_def best_of_rep_def elapsed_at_def sample_reads_def
        reads_per_call_def world0_def env0_def clock0_def ns_of_def trunc_div_def upt_0_2)
  moreover have "clock_reads world0 = 0" by (simp add: world0_def)
  ultimately show ?thesis
    using run_bench_ns_min_of_mins [OF monotonic_clock0, of 2 2 2 Time_syscall_mb]
    by (simp add: monotonic_clock0 never_faults_def)
qed


text \<open>
  Claim C3. On a monotonic clock, for all \<open>calls\<close>, \<open>iters\<close>, \<open>reps\<close> that are at
  least 1, the value \<^verbatim>\<open>run_bench_ns\<close> returns is not negative; and it returns one when
  the three parameters are below \<open>2^32\<close> and the operation is never killed.
\<close>

theorem run_bench_ns_nonnegative:
  assumes "monotonic_clock (env w)" "1 \<le> unat calls" "1 \<le> unat iters" "1 \<le> unat reps"
  shows "(\<forall>r w'. run_bench_ns b calls iters reps w = Some (Inr (r, w')) \<longrightarrow> 0 \<le> sint r)
       \<and> (unat calls < 2 ^ 32 \<and> unat iters < 2 ^ 32 \<and> unat reps < 2 ^ 32 \<and> never_faults b (env w) \<longrightarrow>
            (\<exists>r w'. run_bench_ns b calls iters reps w = Some (Inr (r, w')) \<and> 0 \<le> sint r))"
proof -
  have nz: "calls \<noteq> 0" "iters \<noteq> 0" "reps \<noteq> 0" using assms(2-4) by auto
  have pos: "0 < unat iters" "0 < unat reps" using assms(3,4) by simp_all
  have A: "0 \<le> sint r" if "run_bench_ns b calls iters reps w = Some (Inr (r, w'))" for r w'
    using run_bench_ns_value [OF that assms(1) nz(2,3)]
          min_of_mins_range [OF assms(1) pos, of b "unat calls" "clock_reads w"]
    by simp
  show ?thesis
  proof (intro conjI allI impI)
    fix r w' assume "run_bench_ns b calls iters reps w = Some (Inr (r, w'))"
    then show "0 \<le> sint r" by (rule A)
  next
    assume "unat calls < 2 ^ 32 \<and> unat iters < 2 ^ 32 \<and> unat reps < 2 ^ 32 \<and> never_faults b (env w)"
    then obtain r w' where "run_bench_ns b calls iters reps w = Some (Inr (r, w'))"
      using run_bench_ns_total [of calls iters reps b w] nz(1) by auto
    with A show "\<exists>r w'. run_bench_ns b calls iters reps w = Some (Inr (r, w')) \<and> 0 \<le> sint r"
      by blast
  qed
qed

theorem run_bench_ns_nonnegative_witness:
  "monotonic_clock (env world0)
   \<and> (\<exists>r w'. run_bench_ns File_mb 100 128 5 world0 = Some (Inr (r, w')) \<and> 0 \<le> sint r)"
  using run_bench_ns_nonnegative [OF monotonic_clock0, of 100 128 5 File_mb]
  by (simp add: monotonic_clock0 never_faults_def)

subsection \<open>More repetitions\<close>

lemma signed_min_le: "(if (x :: 64 word) <s best then x else best) \<le>s best"
  by (simp add: word_sle_eq word_sless_alt)

lemma rep_loop_le_initial:
  assumes "rep_loop b calls iters reps rep best w = Some y"
  shows "\<forall>r w'. y = Inr (r, w') \<longrightarrow> r \<le>s best"
proof (rule rep_loop.raw_induct
        [where P = "\<lambda>b calls iters reps rep best w y. \<forall>r w'. y = Inr (r, w') \<longrightarrow> r \<le>s best",
         OF _ assms])
  fix rep_loop' :: "bench_impl \<Rightarrow> 64 word \<Rightarrow> 64 word \<Rightarrow> 64 word \<Rightarrow> 32 word \<Rightarrow> 64 word \<Rightarrow> world \<Rightarrow> (64 word) result"
  fix b calls iters reps rep best w y
  assume ih: "\<And>b calls iters reps rep best w y. rep_loop' b calls iters reps rep best w = Some y \<Longrightarrow>
                \<forall>r w'. y = Inr (r, w') \<longrightarrow> r \<le>s best"
    and step: "(if ucast rep < reps then
        (case iter_loop b calls iters 0 LONG_MAX w of
           None \<Rightarrow> None
         | Some (Inl f) \<Rightarrow> Some (Inl f)
         | Some (Inr (best_ns2, w1)) \<Rightarrow>
             if calls = 0 then Some (Inl SIGFPE)
             else rep_loop' b calls iters reps (rep + 1)
                    (if best_ns2 div calls <s best then best_ns2 div calls else best)
                    (usleep (US_PER_SEC div 8) (putchar CHR ''.'' w1)))
      else Some (Inr (best, w))) = Some y"
  show "\<forall>r w'. y = Inr (r, w') \<longrightarrow> r \<le>s best"
  proof (intro allI impI)
    fix r w' assume y: "y = Inr (r, w')"
    show "r \<le>s best"
    proof (cases "ucast rep < reps")
      case True
      with step y obtain best2 w1 where
        "rep_loop' b calls iters reps (rep + 1)
           (if best2 div calls <s best then best2 div calls else best)
           (usleep (US_PER_SEC div 8) (putchar CHR ''.'' w1)) = Some (Inr (r, w'))"
        by (auto split: option.splits sum.splits if_splits)
      from ih [OF this] have "r \<le>s (if best2 div calls <s best then best2 div calls else best)"
        by simp
      with signed_min_le [of "best2 div calls" best] show ?thesis
        by (simp only: word_sle_eq)
    next
      case False
      with step y show ?thesis by (simp add: word_sle_eq)
    qed
  qed
qed

lemma rep_loop_fewer_reps:
  assumes "unat rep + n = unat reps1" "unat reps1 \<le> unat reps2" "unat reps2 < 2 ^ 32"
    and "rep_loop b calls iters reps2 rep best w = Some (Inr (r2, w2))"
  shows "\<exists>r1 w1. rep_loop b calls iters reps1 rep best w = Some (Inr (r1, w1)) \<and> r2 \<le>s r1"
  using assms(1,4)
proof (induction n arbitrary: rep best w)
  case 0
  then have "\<not> ucast rep < reps1" by (simp add: counter_less)
  then have "rep_loop b calls iters reps1 rep best w = Some (Inr (best, w))"
    by (subst rep_loop.simps) simp
  with rep_loop_le_initial [OF "0.prems"(2)] show ?case by simp
next
  case (Suc n)
  have lt1: "unat rep < unat reps1" using Suc.prems(1) by simp
  then have lt2: "unat rep < unat reps2" using assms(2) by simp
  have suc: "unat (rep + 1) = Suc (unat rep)" using lt2 assms(3) by (rule counter_suc)
  from Suc.prems(2) obtain best2 w1 where
    it: "iter_loop b calls iters 0 LONG_MAX w = Some (Inr (best2, w1))" and c: "calls \<noteq> 0"
    and rest: "rep_loop b calls iters reps2 (rep + 1)
           (if best2 div calls <s best then best2 div calls else best)
           (usleep (US_PER_SEC div 8) (putchar CHR ''.'' w1)) = Some (Inr (r2, w2))"
    by (subst (asm) rep_loop.simps)
       (auto simp: counter_less lt2 split: option.splits sum.splits if_splits)
  have "unat (rep + 1) + n = unat reps1" using Suc.prems(1) suc by simp
  from Suc.IH [OF this rest] obtain r1 w1' where
    "rep_loop b calls iters reps1 (rep + 1)
           (if best2 div calls <s best then best2 div calls else best)
           (usleep (US_PER_SEC div 8) (putchar CHR ''.'' w1)) = Some (Inr (r1, w1'))"
    and "r2 \<le>s r1" by blast
  then show ?case
    by (subst rep_loop.simps) (simp add: counter_less lt1 it c)
qed

text \<open>
  Claim C4. In the same environment and with the same \<open>calls\<close> and \<open>iters\<close>, a run
  with more repetitions never returns a larger value: if the run with \<open>reps2 > reps1\<close>
  returns \<open>r2\<close>, the run with \<open>reps1\<close> returns some \<open>r1\<close> with \<open>r2 \<le> r1\<close>. Both
  runs return when the parameters are below \<open>2^32\<close>, \<open>calls\<close> is not 0 and the operation
  is never killed.
\<close>

theorem run_bench_ns_more_reps:
  "(unat reps1 < unat reps2 \<and> run_bench_ns b calls iters reps2 w = Some (Inr (r2, w2)) \<longrightarrow>
      (\<exists>r1 w1. run_bench_ns b calls iters reps1 w = Some (Inr (r1, w1)) \<and> sint r2 \<le> sint r1))
   \<and> (unat reps1 < unat reps2 \<and> unat reps2 < 2 ^ 32 \<and> unat iters < 2 ^ 32 \<and> unat calls < 2 ^ 32
        \<and> calls \<noteq> 0 \<and> never_faults b (env w) \<longrightarrow>
      (\<exists>r1 w1 r2 w2. run_bench_ns b calls iters reps1 w = Some (Inr (r1, w1))
          \<and> run_bench_ns b calls iters reps2 w = Some (Inr (r2, w2)) \<and> sint r2 \<le> sint r1))"
proof -
  have A: "\<exists>r1 w1. run_bench_ns b calls iters reps1 w = Some (Inr (r1, w1)) \<and> sint r2 \<le> sint r1"
    if lt: "unat reps1 < unat reps2" and ret: "run_bench_ns b calls iters reps2 w = Some (Inr (r2, w2))"
    for r2 w2
  proof -
    have rng: "unat reps2 < 2 ^ 32"
      using rep_loop_no_exit [of b calls iters reps2 0 LONG_MAX w "Inr (r2, w2)"] ret
      by (auto simp: run_bench_ns_def not_le [symmetric])
    have "unat (0 :: 32 word) + unat reps1 = unat reps1" by simp
    from rep_loop_fewer_reps [OF this _ rng, of b calls iters LONG_MAX w r2 w2] lt ret
    show ?thesis by (simp add: run_bench_ns_def word_sle_eq)
  qed
  show ?thesis
  proof (intro conjI impI)
    assume "unat reps1 < unat reps2 \<and> run_bench_ns b calls iters reps2 w = Some (Inr (r2, w2))"
    then show "\<exists>r1 w1. run_bench_ns b calls iters reps1 w = Some (Inr (r1, w1)) \<and> sint r2 \<le> sint r1"
      using A by blast
  next
    assume a: "unat reps1 < unat reps2 \<and> unat reps2 < 2 ^ 32 \<and> unat iters < 2 ^ 32 \<and> unat calls < 2 ^ 32
        \<and> calls \<noteq> 0 \<and> never_faults b (env w)"
    then obtain r2 w2 where ret: "run_bench_ns b calls iters reps2 w = Some (Inr (r2, w2))"
      using run_bench_ns_total [of calls iters reps2 b w] by auto
    with A [OF _ ret] a
    show "\<exists>r1 w1 r2 w2. run_bench_ns b calls iters reps1 w = Some (Inr (r1, w1))
          \<and> run_bench_ns b calls iters reps2 w = Some (Inr (r2, w2)) \<and> sint r2 \<le> sint r1"
      by blast
  qed
qed

theorem run_bench_ns_more_reps_witness:
  "\<exists>r1 w1 r2 w2. run_bench_ns Time_implicit_mb 100000 32 5 world0 = Some (Inr (r1, w1))
      \<and> run_bench_ns Time_implicit_mb 100000 32 7 world0 = Some (Inr (r2, w2)) \<and> sint r2 \<le> sint r1"
  using run_bench_ns_more_reps [of 5 7 Time_implicit_mb 100000 32 world0]
  by (simp add: never_faults_def)

subsection \<open>Default substitution\<close>




lemma get_arg_explicit:
  "i < length argv \<Longrightarrow> atoi (argv ! i) = v \<Longrightarrow> v \<noteq> 0 \<Longrightarrow>
     get_arg (int (length argv)) argv (int i) d = scast v"
  by (simp add: get_arg_present)





lemmas atoi_eval = atoi_def strtol_def number_prefix_def isspace_def isdigit_def
  dec_value_def digit_val_def





subsection \<open>The drivers and the mode\<close>

lemma tolower_other:
  "c \<notin> set ''ABCDEFGHIJKLMNOPQRSTUVWXYZ'' \<Longrightarrow> tolower c = c"
  by (simp add: tolower_def)

text \<open>
  Claim C6. When the first argument's first character, lowercased, is none of \<open>t\<close>,
  \<open>f\<close>, \<open>a\<close>, the program returns status 1 and the only change of the state is the
  diagnostic on the standard error stream, which quotes that character and names the three
  modes: nothing is invoked and nothing is printed on the standard output.
\<close>

theorem invalid_mode:
  assumes "2 \<le> length argv"
    and "tolower (first_char (argv ! 1)) \<noteq> CHR ''t''"
    and "tolower (first_char (argv ! 1)) \<noteq> CHR ''f''"
    and "tolower (first_char (argv ! 1)) \<noteq> CHR ''a''"
  shows "callbench argv w =
           Some (Inr (1, w\<lparr>stderr := stderr w @ ''Invalid mode '' @
                   [CHR 0x27, tolower (first_char (argv ! 1)), CHR 0x27] @
                   ''! Valid modes are: [t]ime, [f]ile, [a]ll\<newline>''\<rparr>))"
  using assms by (simp add: callbench_def main_def print_stderr_def)

theorem invalid_mode_witness:
  "callbench [''callbench'', ''Zebra''] world0 =
     Some (Inr (1, world0\<lparr>stderr := ''Invalid mode '' @ [CHR 0x27] @ ''z'' @ [CHR 0x27] @
                   ''! Valid modes are: [t]ime, [f]ile, [a]ll\<newline>''\<rparr>))
   \<and> invoked world0 = []"
  using invalid_mode [of "[''callbench'', ''Zebra'']" world0]
  by (simp add: tolower_def first_char_def world0_def)

lemma get_arg_nonzero: "d \<noteq> 0 \<Longrightarrow> get_arg argc argv i d \<noteq> 0"
  by (simp add: get_arg_def Let_def)

lemma advanced_fields:
  assumes "advanced b reads n dots w w'"
  shows "env w' = env w" "clock_reads w' = clock_reads w + reads"
    "invoked w' = invoked w @ replicate n b"
    "stdout w' = stdout w @ replicate dots CHR ''.''" "stderr w' = stderr w"
  using assms by (simp_all add: advanced_def)

lemma bench_time_returns:
  assumes "bench_time argc argv w = Some (Inr (ret, w'))"
  shows "\<exists>r1 r2. ret = 0 \<and> env w' = env w \<and> stderr w' = stderr w
     \<and> invoked w' = invoked w
         @ replicate (unat (get_arg argc argv 2 100000) * unat (get_arg argc argv 3 32)
              * unat (get_arg argc argv 4 5)) Time_syscall_mb
         @ replicate (unat (get_arg argc argv 2 100000) * unat (get_arg argc argv 3 32)
              * unat (get_arg argc argv 4 5)) Time_implicit_mb
     \<and> stdout w' = stdout w @ ''clock_gettime: ''
         @ replicate (unat (get_arg argc argv 4 5)) CHR ''.''
         @ replicate (unat (get_arg argc argv 4 5)) CHR ''.''
         @ ''\<newline>    syscall: '' @ show_long r1 @ '' ns\<newline>''
         @ ''    implicit: '' @ show_long r2 @ '' ns\<newline>''"
proof -
  let ?calls = "get_arg argc argv 2 100000" and ?iters = "get_arg argc argv 3 32"
    and ?reps = "get_arg argc argv 4 5"
  let ?w1 = "print_stdout ''clock_gettime: '' w"
  have nz: "?iters \<noteq> 0" "?reps \<noteq> 0" by (simp_all add: get_arg_nonzero)
  from assms obtain r1 w2 r2 w3 where
    a: "run_bench_ns Time_syscall_mb ?calls ?iters ?reps ?w1 = Some (Inr (r1, w2))"
    and b: "run_bench_ns Time_implicit_mb ?calls ?iters ?reps w2 = Some (Inr (r2, w3))"
    and ret: "ret = 0"
    and w': "w' = print_stdout (''    implicit: '' @ show_long r2 @ '' ns\<newline>'')
                 (print_stdout (''\<newline>    syscall: '' @ show_long r1 @ '' ns\<newline>'') w3)"
    by (auto simp: bench_time_def Let_def split: option.splits sum.splits)
  note A = advanced_fields [OF run_bench_ns_returns(2) [OF a nz]]
  note B = advanced_fields [OF run_bench_ns_returns(2) [OF b nz]]
  have m: "unat ?reps * (unat ?iters * unat ?calls) = unat ?calls * unat ?iters * unat ?reps"
    by (simp add: mult_ac)
  show ?thesis
    apply (rule exI [of _ r1], rule exI [of _ r2])
    apply (simp add: ret w' print_stdout_def A B m [symmetric])
    done
qed

lemma bench_file_returns:
  assumes "bench_file argc argv w = Some (Inr (ret, w'))"
  shows "\<exists>r1 r2. ret = 0 \<and> env w' = env w \<and> stderr w' = stderr w
     \<and> invoked w' = invoked w
         @ replicate (unat (get_arg argc argv 2 100) * unat (get_arg argc argv 3 128)
              * unat (get_arg argc argv 4 5)) Mmap_mb
         @ replicate (unat (get_arg argc argv 2 100) * unat (get_arg argc argv 3 128)
              * unat (get_arg argc argv 4 5)) File_mb
     \<and> stdout w' = stdout w @ ''file read: ''
         @ replicate (unat (get_arg argc argv 4 5)) CHR ''.''
         @ replicate (unat (get_arg argc argv 4 5)) CHR ''.''
         @ ''\<newline>    mmap: '' @ show_long r1 @ '' ns\<newline>''
         @ ''    read: '' @ show_long r2 @ '' ns\<newline>''"
proof -
  let ?calls = "get_arg argc argv 2 100" and ?iters = "get_arg argc argv 3 128"
    and ?reps = "get_arg argc argv 4 5"
  let ?w1 = "print_stdout ''file read: '' w"
  have nz: "?iters \<noteq> 0" "?reps \<noteq> 0" by (simp_all add: get_arg_nonzero)
  from assms obtain r1 w2 r2 w3 where
    a: "run_bench_ns Mmap_mb ?calls ?iters ?reps ?w1 = Some (Inr (r1, w2))"
    and b: "run_bench_ns File_mb ?calls ?iters ?reps w2 = Some (Inr (r2, w3))"
    and ret: "ret = 0"
    and w': "w' = print_stdout (''    read: '' @ show_long r2 @ '' ns\<newline>'')
                 (print_stdout (''\<newline>    mmap: '' @ show_long r1 @ '' ns\<newline>'') w3)"
    by (auto simp: bench_file_def Let_def split: option.splits sum.splits)
  note A = advanced_fields [OF run_bench_ns_returns(2) [OF a nz]]
  note B = advanced_fields [OF run_bench_ns_returns(2) [OF b nz]]
  have m: "unat ?reps * (unat ?iters * unat ?calls) = unat ?calls * unat ?iters * unat ?reps"
    by (simp add: mult_ac)
  show ?thesis
    apply (rule exI [of _ r1], rule exI [of _ r2])
    apply (simp add: ret w' print_stdout_def A B m [symmetric])
    done
qed

lemma bench_time_total:
  assumes "unat (get_arg argc argv 2 100000) < 2 ^ 32" "unat (get_arg argc argv 3 32) < 2 ^ 32"
    and "unat (get_arg argc argv 4 5) < 2 ^ 32"
  shows "\<exists>w'. bench_time argc argv w = Some (Inr (0, w'))"
proof -
  let ?calls = "get_arg argc argv 2 100000" and ?iters = "get_arg argc argv 3 32"
    and ?reps = "get_arg argc argv 4 5"
  let ?w1 = "print_stdout ''clock_gettime: '' w"
  have nz: "?calls \<noteq> 0" by (simp add: get_arg_nonzero)
  from run_bench_ns_total [OF assms _ nz, of Time_syscall_mb ?w1]
  obtain r1 w2 where a: "run_bench_ns Time_syscall_mb ?calls ?iters ?reps ?w1 = Some (Inr (r1, w2))"
    by (auto simp: never_faults_def)
  from run_bench_ns_total [OF assms _ nz, of Time_implicit_mb w2]
  obtain r2 w3 where b: "run_bench_ns Time_implicit_mb ?calls ?iters ?reps w2 = Some (Inr (r2, w3))"
    by (auto simp: never_faults_def)
  show ?thesis by (simp add: bench_time_def Let_def a b)
qed

lemma bench_file_total:
  assumes "unat (get_arg argc argv 2 100) < 2 ^ 32" "unat (get_arg argc argv 3 128) < 2 ^ 32"
    and "unat (get_arg argc argv 4 5) < 2 ^ 32" and "never_faults Mmap_mb (env w)"
  shows "\<exists>w'. bench_file argc argv w = Some (Inr (0, w'))"
proof -
  let ?calls = "get_arg argc argv 2 100" and ?iters = "get_arg argc argv 3 128"
    and ?reps = "get_arg argc argv 4 5"
  let ?w1 = "print_stdout ''file read: '' w"
  have nz: "?calls \<noteq> 0" by (simp add: get_arg_nonzero)
  have nf: "never_faults Mmap_mb (env ?w1)" using assms(4) by (simp add: print_stdout_def)
  from run_bench_ns_total [OF assms(1-3) nf nz]
  obtain r1 w2 where a: "run_bench_ns Mmap_mb ?calls ?iters ?reps ?w1 = Some (Inr (r1, w2))"
    by auto
  from run_bench_ns_total [OF assms(1-3) _ nz, of File_mb w2]
  obtain r2 w3 where b: "run_bench_ns File_mb ?calls ?iters ?reps w2 = Some (Inr (r2, w3))"
    by (auto simp: never_faults_def)
  show ?thesis by (simp add: bench_file_def Let_def a b)
qed

lemma unat_scast_nonneg:
  assumes "0 \<le> sint (v :: 32 word)"
  shows "unat (scast v :: 64 word) < 2 ^ 32"
proof -
  have "sint (scast v :: 64 word) = sint v" by (rule sint_scast_long)
  with assms have u: "uint (scast v :: 64 word) = sint v" by (simp add: uint_of_nonneg)
  have "sint v < 2 ^ 31" using sint_lt [of v] by simp
  then have "nat (sint v) < 2 ^ 32" using assms by (simp add: nat_less_iff)
  moreover have "unat (scast v :: 64 word) = nat (uint (scast v :: 64 word))"
    by (rule unat_eq_nat_uint)
  ultimately show ?thesis by (simp only: u)
qed

lemma get_arg_in_range:
  assumes "tunings_in_range argv" "2 \<le> i" "i \<le> 4" "unat d < 2 ^ 32"
  shows "unat (get_arg (int (length argv)) argv (int i) d) < 2 ^ 32"
proof (cases "i < length argv")
  case True
  with assms(1-3) have "0 \<le> sint (atoi (argv ! i))" by (simp add: tunings_in_range_def)
  then have "unat (scast (atoi (argv ! i)) :: 64 word) < 2 ^ 32" by (rule unat_scast_nonneg)
  with True assms(4) show ?thesis by (simp add: get_arg_present)
next
  case False
  with assms(4) show ?thesis by (simp add: get_arg_absent)
qed

lemma tunings_time:
  assumes "tunings_in_range argv"
  shows "unat (get_arg (int (length argv)) argv 2 100000) < 2 ^ 32"
    "unat (get_arg (int (length argv)) argv 3 32) < 2 ^ 32"
    "unat (get_arg (int (length argv)) argv 4 5) < 2 ^ 32"
  using get_arg_in_range [OF assms, of 2 100000] get_arg_in_range [OF assms, of 3 32]
        get_arg_in_range [OF assms, of 4 5]
  by simp_all

lemma tunings_file:
  assumes "tunings_in_range argv"
  shows "unat (get_arg (int (length argv)) argv 2 100) < 2 ^ 32"
    "unat (get_arg (int (length argv)) argv 3 128) < 2 ^ 32"
  using get_arg_in_range [OF assms, of 2 100] get_arg_in_range [OF assms, of 3 128]
  by simp_all

lemma tolower_modes:
  "tolower CHR ''t'' = CHR ''t''" "tolower CHR ''T'' = CHR ''t''"
  "tolower CHR ''f'' = CHR ''f''" "tolower CHR ''F'' = CHR ''f''"
  "tolower CHR ''a'' = CHR ''a''" "tolower CHR ''A'' = CHR ''a''"
  by (simp_all add: tolower_def)

lemma bench_time_status:
  "bench_time argc argv w = Some (Inr (ret, w')) \<Longrightarrow> ret = 0"
  using bench_time_returns [of argc argv w ret w'] by blast

lemma bench_file_status:
  "bench_file argc argv w = Some (Inr (ret, w')) \<Longrightarrow> ret = 0"
  using bench_file_returns [of argc argv w ret w'] by blast

lemma main_time_only:
  assumes "2 \<le> length argv" "tolower (first_char (argv ! 1)) = CHR ''t''"
  shows "callbench argv w = bench_time (int (length argv)) argv w"
proof (cases "bench_time (int (length argv)) argv w")
  case None
  with assms show ?thesis by (simp add: callbench_def main_def)
next
  case (Some y)
  show ?thesis
  proof (cases y)
    case (Inl f)
    with Some assms show ?thesis by (simp add: callbench_def main_def)
  next
    case (Inr p)
    obtain ret w1 where p: "p = (ret, w1)" by (cases p)
    from bench_time_status [of "int (length argv)" argv w ret w1] Some Inr p
    have "ret = 0" by simp
    with Some Inr p assms show ?thesis by (simp add: callbench_def main_def)
  qed
qed

lemma main_file_only:
  assumes "2 \<le> length argv" "tolower (first_char (argv ! 1)) = CHR ''f''"
  shows "callbench argv w = bench_file (int (length argv)) argv w"
proof (cases "bench_file (int (length argv)) argv w")
  case None
  with assms show ?thesis by (simp add: callbench_def main_def)
next
  case (Some y)
  show ?thesis
  proof (cases y)
    case (Inl f)
    with Some assms show ?thesis by (simp add: callbench_def main_def)
  next
    case (Inr p)
    obtain ret w1 where p: "p = (ret, w1)" by (cases p)
    from bench_file_status [of "int (length argv)" argv w ret w1] Some Inr p
    have "ret = 0" by simp
    with Some Inr p assms show ?thesis by (simp add: callbench_def main_def)
  qed
qed

lemma main_all_unfold:
  assumes "length argv < 2 \<or> tolower (first_char (argv ! 1)) = CHR ''a''"
  shows "callbench argv w =
           (case bench_time (int (length argv)) argv w of
              None \<Rightarrow> None
            | Some (Inl f) \<Rightarrow> Some (Inl f)
            | Some (Inr (ret, w1)) \<Rightarrow>
                if ret \<noteq> 0 then Some (Inr (ret, w1))
                else (case bench_file (int (length argv)) argv (putchar CHR 0x0A w1) of
                        None \<Rightarrow> None
                      | Some (Inl f) \<Rightarrow> Some (Inl f)
                      | Some (Inr (ret2, w3)) \<Rightarrow>
                          if ret2 \<noteq> 0 then Some (Inr (ret2, w3)) else Some (Inr (0, w3))))"
proof (cases "2 \<le> length argv")
  case True
  with assms have "tolower (first_char (argv ! 1)) = CHR ''a''" by simp
  with True show ?thesis
    by (simp add: callbench_def main_def split: option.splits sum.splits prod.splits)
next
  case False
  then show ?thesis
    by (simp add: callbench_def main_def split: option.splits sum.splits prod.splits)
qed

lemma main_all:
  assumes "length argv < 2 \<or> tolower (first_char (argv ! 1)) = CHR ''a''"
  shows "callbench argv w =
           (case bench_time (int (length argv)) argv w of
              None \<Rightarrow> None
            | Some (Inl f) \<Rightarrow> Some (Inl f)
            | Some (Inr (ret, w1)) \<Rightarrow> bench_file (int (length argv)) argv (putchar CHR 0x0A w1))"
  by (simp only: main_all_unfold [OF assms])
     (auto split: option.splits sum.splits dest: bench_time_status bench_file_status)

lemma invocations_pos: "0 < time_invocations argv" "0 < file_invocations argv"
  by (simp_all add: time_invocations_def file_invocations_def Let_def unat_gt_0 get_arg_nonzero)

lemma time_mode_returns:
  assumes "bench_time (int (length argv)) argv w = Some (Inr (status, w'))"
  shows "status = 0 \<and> invoked w' = invoked w
           @ replicate (time_invocations argv) Time_syscall_mb
           @ replicate (time_invocations argv) Time_implicit_mb"
  using bench_time_returns [OF assms] by (auto simp: time_invocations_def Let_def)

lemma file_mode_returns:
  assumes "bench_file (int (length argv)) argv w = Some (Inr (status, w'))"
  shows "status = 0 \<and> invoked w' = invoked w
           @ replicate (file_invocations argv) Mmap_mb
           @ replicate (file_invocations argv) File_mb"
  using bench_file_returns [OF assms] by (auto simp: file_invocations_def Let_def)

lemma all_mode_returns:
  assumes "length argv < 2 \<or> tolower (first_char (argv ! 1)) = CHR ''a''"
    and "callbench argv w = Some (Inr (status, w'))"
  shows "status = 0 \<and> invoked w' = invoked w
           @ replicate (time_invocations argv) Time_syscall_mb
           @ replicate (time_invocations argv) Time_implicit_mb
           @ replicate (file_invocations argv) Mmap_mb
           @ replicate (file_invocations argv) File_mb"
proof -
  from assms(2) obtain ret w1 where
    t: "bench_time (int (length argv)) argv w = Some (Inr (ret, w1))"
    and f: "bench_file (int (length argv)) argv (putchar CHR 0x0A w1) = Some (Inr (status, w'))"
    by (simp only: main_all [OF assms(1)]) (auto split: option.splits sum.splits)
  from time_mode_returns [OF t] file_mode_returns [OF f] show ?thesis
    by (simp add: putchar_def)
qed

lemma all_mode_total:
  assumes "length argv < 2 \<or> tolower (first_char (argv ! 1)) = CHR ''a''"
    and "tunings_in_range argv" "never_faults Mmap_mb (env w)"
  shows "\<exists>w'. callbench argv w = Some (Inr (0, w'))"
proof -
  from bench_time_total [OF tunings_time [OF assms(2)], of w]
  obtain w1 where t: "bench_time (int (length argv)) argv w = Some (Inr (0, w1))" by blast
  from bench_time_returns [OF t] have "env w1 = env w" by blast
  then have nf: "never_faults Mmap_mb (env (putchar CHR 0x0A w1))"
    using assms(3) by (simp add: putchar_def)
  from bench_file_total [OF tunings_file [OF assms(2)] tunings_time(3) [OF assms(2)] nf]
  obtain w' where "bench_file (int (length argv)) argv (putchar CHR 0x0A w1) = Some (Inr (0, w'))"
    by blast
  with t show ?thesis by (simp add: main_all [OF assms(1)])
qed

text \<open>
  Claim C5. A first argument starting with \<open>t\<close> or \<open>T\<close> makes the program behave as
  \<^verbatim>\<open>bench_time\<close> alone, and a run that returns has invoked the two clock operations,
  each as often as the tuning arguments say, and no file operation; with \<open>f\<close> or \<open>F\<close>
  the same holds for \<^verbatim>\<open>bench_file\<close> and the two file operations. With \<open>a\<close>, \<open>A\<close> or
  no argument the program runs \<^verbatim>\<open>bench_time\<close> and then \<^verbatim>\<open>bench_file\<close>, and a run that
  returns has invoked the clock pair and then the file pair. The run returns with status 0
  when no tuning token is negative and, for the file pair, no acquisition fails.
\<close>

theorem mode_dispatch:
  "(2 \<le> length argv \<and> (first_char (argv ! 1) = CHR ''t'' \<or> first_char (argv ! 1) = CHR ''T'') \<longrightarrow>
      callbench argv w = bench_time (int (length argv)) argv w
    \<and> (\<forall>status w'. callbench argv w = Some (Inr (status, w')) \<longrightarrow>
          status = 0 \<and> invoked w' = invoked w
            @ replicate (time_invocations argv) Time_syscall_mb
            @ replicate (time_invocations argv) Time_implicit_mb)
    \<and> (tunings_in_range argv \<longrightarrow> (\<exists>w'. callbench argv w = Some (Inr (0, w')))))
   \<and> (2 \<le> length argv \<and> (first_char (argv ! 1) = CHR ''f'' \<or> first_char (argv ! 1) = CHR ''F'') \<longrightarrow>
      callbench argv w = bench_file (int (length argv)) argv w
    \<and> (\<forall>status w'. callbench argv w = Some (Inr (status, w')) \<longrightarrow>
          status = 0 \<and> invoked w' = invoked w
            @ replicate (file_invocations argv) Mmap_mb
            @ replicate (file_invocations argv) File_mb)
    \<and> (tunings_in_range argv \<and> never_faults Mmap_mb (env w) \<longrightarrow>
          (\<exists>w'. callbench argv w = Some (Inr (0, w')))))
   \<and> (length argv < 2 \<or> first_char (argv ! 1) = CHR ''a'' \<or> first_char (argv ! 1) = CHR ''A'' \<longrightarrow>
      callbench argv w =
        (case bench_time (int (length argv)) argv w of
           None \<Rightarrow> None
         | Some (Inl f) \<Rightarrow> Some (Inl f)
         | Some (Inr (ret, w1)) \<Rightarrow> bench_file (int (length argv)) argv (putchar CHR 0x0A w1))
    \<and> (\<forall>status w'. callbench argv w = Some (Inr (status, w')) \<longrightarrow>
          status = 0 \<and> invoked w' = invoked w
            @ replicate (time_invocations argv) Time_syscall_mb
            @ replicate (time_invocations argv) Time_implicit_mb
            @ replicate (file_invocations argv) Mmap_mb
            @ replicate (file_invocations argv) File_mb)
    \<and> (tunings_in_range argv \<and> never_faults Mmap_mb (env w) \<longrightarrow>
          (\<exists>w'. callbench argv w = Some (Inr (0, w')))))
   \<and> 0 < time_invocations argv \<and> 0 < file_invocations argv"
proof (intro conjI impI allI)
  assume a: "2 \<le> length argv \<and> (first_char (argv ! 1) = CHR ''t'' \<or> first_char (argv ! 1) = CHR ''T'')"
  then have m: "tolower (first_char (argv ! 1)) = CHR ''t''" by (auto simp: tolower_modes)
  from a m show eq: "callbench argv w = bench_time (int (length argv)) argv w"
    by (intro main_time_only) simp_all
  { fix status w' assume "callbench argv w = Some (Inr (status, w'))"
    with eq have r: "bench_time (int (length argv)) argv w = Some (Inr (status, w'))" by simp
    from time_mode_returns [OF r] show "status = 0" by simp
    from time_mode_returns [OF r] show "invoked w' = invoked w
            @ replicate (time_invocations argv) Time_syscall_mb
            @ replicate (time_invocations argv) Time_implicit_mb" by simp }
  assume "tunings_in_range argv"
  from bench_time_total [OF tunings_time [OF this], of w] eq
  show "\<exists>w'. callbench argv w = Some (Inr (0, w'))" by simp
next
  assume a: "2 \<le> length argv \<and> (first_char (argv ! 1) = CHR ''f'' \<or> first_char (argv ! 1) = CHR ''F'')"
  then have m: "tolower (first_char (argv ! 1)) = CHR ''f''" by (auto simp: tolower_modes)
  from a m show eq: "callbench argv w = bench_file (int (length argv)) argv w"
    by (intro main_file_only) simp_all
  { fix status w' assume "callbench argv w = Some (Inr (status, w'))"
    with eq have r: "bench_file (int (length argv)) argv w = Some (Inr (status, w'))" by simp
    from file_mode_returns [OF r] show "status = 0" by simp
    from file_mode_returns [OF r] show "invoked w' = invoked w
            @ replicate (file_invocations argv) Mmap_mb
            @ replicate (file_invocations argv) File_mb" by simp }
  assume t: "tunings_in_range argv \<and> never_faults Mmap_mb (env w)"
  then have t1: "tunings_in_range argv" and nf: "never_faults Mmap_mb (env w)" by simp_all
  from bench_file_total [OF tunings_file [OF t1] tunings_time(3) [OF t1] nf] eq
  show "\<exists>w'. callbench argv w = Some (Inr (0, w'))" by simp
next
  assume a: "length argv < 2 \<or> first_char (argv ! 1) = CHR ''a'' \<or> first_char (argv ! 1) = CHR ''A''"
  then have m: "length argv < 2 \<or> tolower (first_char (argv ! 1)) = CHR ''a''"
    by (auto simp: tolower_modes)
  show "callbench argv w =
        (case bench_time (int (length argv)) argv w of
           None \<Rightarrow> None
         | Some (Inl f) \<Rightarrow> Some (Inl f)
         | Some (Inr (ret, w1)) \<Rightarrow> bench_file (int (length argv)) argv (putchar CHR 0x0A w1))"
    using m by (rule main_all)
  { fix status w' assume r: "callbench argv w = Some (Inr (status, w'))"
    from all_mode_returns [OF m r] show "status = 0" by simp
    from all_mode_returns [OF m r] show "invoked w' = invoked w
            @ replicate (time_invocations argv) Time_syscall_mb
            @ replicate (time_invocations argv) Time_implicit_mb
            @ replicate (file_invocations argv) Mmap_mb
            @ replicate (file_invocations argv) File_mb" by simp }
  assume t: "tunings_in_range argv \<and> never_faults Mmap_mb (env w)"
  then show "\<exists>w'. callbench argv w = Some (Inr (0, w'))"
    using all_mode_total [OF m] by simp
next
  show "0 < time_invocations argv" "0 < file_invocations argv" by (rule invocations_pos)+
qed

lemma never_faults_world0: "never_faults b (env world0)"
  by (simp add: never_faults_def world0_def env0_def)

theorem mode_dispatch_witness:
  "tunings_in_range [''callbench'', ''T'', ''3'', ''2'', ''1'']
   \<and> (\<exists>w'. callbench [''callbench'', ''T'', ''3'', ''2'', ''1''] world0 = Some (Inr (0, w'))
         \<and> invoked w' = replicate 6 Time_syscall_mb @ replicate 6 Time_implicit_mb)
   \<and> (\<exists>w'. callbench [''callbench''] world0 = Some (Inr (0, w'))
         \<and> invoked w' = replicate 16000000 Time_syscall_mb @ replicate 16000000 Time_implicit_mb
             @ replicate 64000 Mmap_mb @ replicate 64000 File_mb)"
proof -
  let ?a = "[''callbench'', ''T'', ''3'', ''2'', ''1'']"
  have ta: "tunings_in_range ?a"
    unfolding tunings_in_range_def
  proof (intro allI impI)
    fix i :: nat assume "2 \<le> i \<and> i \<le> 4 \<and> i < length ?a"
    then have "i = 2 \<or> i = 3 \<or> i = 4" by auto
    then show "0 \<le> sint (atoi (?a ! i))" by (auto simp: atoi_eval)
  qed
  have tb: "tunings_in_range [''callbench'']" by (simp add: tunings_in_range_def)
  have na: "time_invocations ?a = 6"
    by (simp add: time_invocations_def get_arg_def atoi_eval)
  have nb: "time_invocations [''callbench''] = 16000000" "file_invocations [''callbench''] = 64000"
    by (simp_all add: time_invocations_def file_invocations_def get_arg_def)
  have i0: "invoked world0 = []" by (simp add: world0_def)
  have ha: "2 \<le> length ?a \<and> (first_char (?a ! 1) = CHR ''t'' \<or> first_char (?a ! 1) = CHR ''T'')"
    by (simp add: first_char_def)
  note A = mode_dispatch [of ?a world0, THEN conjunct1, THEN mp, OF ha]
  from A ta obtain w' where a: "callbench ?a world0 = Some (Inr (0, w'))" by blast
  from A a have "invoked w' = invoked world0
      @ replicate (time_invocations ?a) Time_syscall_mb
      @ replicate (time_invocations ?a) Time_implicit_mb" by blast
  then have a': "invoked w' = replicate 6 Time_syscall_mb @ replicate 6 Time_implicit_mb"
    by (simp only: na i0 append_Nil)
  let ?b = "[''callbench'']"
  have hb: "length ?b < 2 \<or> first_char (?b ! 1) = CHR ''a'' \<or> first_char (?b ! 1) = CHR ''A''"
    by simp
  note B = mode_dispatch [of ?b world0, THEN conjunct2, THEN conjunct2, THEN conjunct1,
      THEN mp, OF hb]
  from B tb never_faults_world0 [of Mmap_mb]
  obtain w'' where b: "callbench ?b world0 = Some (Inr (0, w''))" by blast
  from B b have "invoked w'' = invoked world0
      @ replicate (time_invocations ?b) Time_syscall_mb
      @ replicate (time_invocations ?b) Time_implicit_mb
      @ replicate (file_invocations ?b) Mmap_mb
      @ replicate (file_invocations ?b) File_mb" by blast
  then have b': "invoked w'' = replicate 16000000 Time_syscall_mb
             @ replicate 16000000 Time_implicit_mb
             @ replicate 64000 Mmap_mb @ replicate 64000 File_mb"
    by (simp only: nb i0 append_Nil)
  from ta a a' b b' show ?thesis by blast
qed

subsection \<open>An end-to-end run\<close>






subsection \<open>Failed acquisitions\<close>

lemma file_mb_calls:
  "\<exists>fd buf w'. file_mb w = Inr w'
     \<and> os_calls w' = os_calls w @ [Open TEST_READ_PATH fd, Malloc TEST_READ_LEN buf,
          Read fd buf TEST_READ_LEN, Close fd, Free buf]
     \<and> (fd = - 1 \<longleftrightarrow> open_src (env w) (length (os_calls w)) = None)
     \<and> (buf = NULL \<longleftrightarrow> malloc_src (env w) (Suc (length (os_calls w))) = None)"
  by (auto simp: file_mb_def os_defs Let_def split: option.splits)

lemma run_impl_releases:
  "run_impl b w = Inr w' \<Longrightarrow> fds w' = fds w \<and> mappings w' = mappings w \<and> buffers w' = buffers w"
  using run_impl_returns [of b w w'] by (simp add: advanced_def)

lemma file_run_not_killed:
  "calls \<noteq> 0 \<Longrightarrow> run_bench_ns File_mb calls iters reps w \<noteq> Some (Inl f)"
  using rep_loop_no_fault [of File_mb calls iters reps 0 LONG_MAX w "Inl f"]
  by (auto simp: run_bench_ns_def never_faults_def)

lemma file_run_returns:
  assumes "unat calls < 2 ^ 32" "unat iters < 2 ^ 32" "unat reps < 2 ^ 32" "calls \<noteq> 0"
  shows "\<exists>r w'. run_bench_ns File_mb calls iters reps w = Some (Inr (r, w'))"
  using assms by (intro run_bench_ns_total) (simp_all add: never_faults_def)

text \<open>
  Claim C8, as the code has it. A failed acquisition is not detected. \<^verbatim>\<open>file_mb\<close>
  always returns after the same five calls: after a failed \<^verbatim>\<open>open\<close> it calls
  \<^verbatim>\<open>read\<close> and \<^verbatim>\<open>close\<close> with the descriptor \<open>-1\<close>, after a failed \<^verbatim>\<open>malloc\<close> it
  calls \<^verbatim>\<open>read\<close> and \<^verbatim>\<open>free\<close> with \<^verbatim>\<open>NULL\<close>. The run is not terminated: in every
  environment \<^verbatim>\<open>run_bench_ns\<close> on \<^verbatim>\<open>file_mb\<close> is never killed and, with parameters
  below \<open>2^32\<close>, returns a result. On every path on which a measured operation returns,
  the descriptors, mappings and buffers that are live are those that were live before: all
  it acquired is released.
\<close>

theorem unchecked_acquisition:
  "(\<exists>fd buf w'. file_mb w = Inr w'
      \<and> os_calls w' = os_calls w @ [Open TEST_READ_PATH fd, Malloc TEST_READ_LEN buf,
           Read fd buf TEST_READ_LEN, Close fd, Free buf]
      \<and> (fd = - 1 \<longleftrightarrow> open_src (env w) (length (os_calls w)) = None)
      \<and> (buf = NULL \<longleftrightarrow> malloc_src (env w) (Suc (length (os_calls w))) = None))
   \<and> (calls \<noteq> 0 \<longrightarrow> run_bench_ns File_mb calls iters reps w \<noteq> Some (Inl f))
   \<and> (calls \<noteq> 0 \<and> unat calls < 2 ^ 32 \<and> unat iters < 2 ^ 32 \<and> unat reps < 2 ^ 32 \<longrightarrow>
        (\<exists>r w'. run_bench_ns File_mb calls iters reps w = Some (Inr (r, w'))))
   \<and> (\<forall>w'. run_impl b w = Inr w' \<longrightarrow>
         fds w' = fds w \<and> mappings w' = mappings w \<and> buffers w' = buffers w)"
proof (intro conjI impI allI)
  show "\<exists>fd buf w'. file_mb w = Inr w'
      \<and> os_calls w' = os_calls w @ [Open TEST_READ_PATH fd, Malloc TEST_READ_LEN buf,
           Read fd buf TEST_READ_LEN, Close fd, Free buf]
      \<and> (fd = - 1 \<longleftrightarrow> open_src (env w) (length (os_calls w)) = None)
      \<and> (buf = NULL \<longleftrightarrow> malloc_src (env w) (Suc (length (os_calls w))) = None)"
    by (rule file_mb_calls)
next
  assume "calls \<noteq> 0"
  then show "run_bench_ns File_mb calls iters reps w \<noteq> Some (Inl f)"
    by (rule file_run_not_killed)
next
  assume "calls \<noteq> 0 \<and> unat calls < 2 ^ 32 \<and> unat iters < 2 ^ 32 \<and> unat reps < 2 ^ 32"
  then show "\<exists>r w'. run_bench_ns File_mb calls iters reps w = Some (Inr (r, w'))"
    by (intro file_run_returns) simp_all
next
  fix w' assume r: "run_impl b w = Inr w'"
  from run_impl_releases [OF r]
  show "fds w' = fds w" "mappings w' = mappings w" "buffers w' = buffers w" by simp_all
qed

lemma monotonic_no_dev: "monotonic_clock (env world_no_dev)"
  by (simp add: monotonic_clock_def world_no_dev_def env_no_dev_def valid_reading_def ns_of_def)

text \<open>
  Without the device \<^verbatim>\<open>file_mb\<close> reads from the descriptor \<open>-1\<close> and returns, and the
  run reports 700 ns for a read that never took place.
\<close>

theorem unchecked_acquisition_counterexample:
  "file_mb world_no_dev =
     Inr (world_no_dev\<lparr>os_calls := [Open ''/dev/zero'' (- 1), Malloc 65536 (Addr 8192),
            Read (- 1) (Addr 8192) 65536, Close (- 1), Free (Addr 8192)]\<rparr>)
   \<and> result_of (run_bench_ns File_mb 1 1 1 world_no_dev) = Some (Inr 700)"
proof -
  have a: "file_mb world_no_dev =
     Inr (world_no_dev\<lparr>os_calls := [Open ''/dev/zero'' (- 1), Malloc 65536 (Addr 8192),
            Read (- 1) (Addr 8192) 65536, Close (- 1), Free (Addr 8192)]\<rparr>)"
    by (simp add: file_mb_def os_defs world_no_dev_def env_no_dev_def TEST_READ_PATH_def
        TEST_READ_LEN_def)
  obtain r w' where r: "run_bench_ns File_mb 1 1 1 world_no_dev = Some (Inr (r, w'))"
    using run_bench_ns_total [of 1 1 1 File_mb world_no_dev] by (auto simp: never_faults_def)
  have "min_of_mins (env world_no_dev) File_mb 1 1 1 0 = 700"
    by (simp add: min_of_mins_def best_of_rep_def elapsed_at_def sample_reads_def
        reads_per_call_def world_no_dev_def env_no_dev_def ns_of_def trunc_div_def)
  moreover have "clock_reads world_no_dev = 0" by (simp add: world_no_dev_def)
  ultimately have "sint r = 700"
    using run_bench_ns_value [OF r monotonic_no_dev] by simp
  then have "sint r = sint (700 :: 64 word)" by simp
  then have "r = 700" by (rule signed_word_eqI)
  with r have "result_of (run_bench_ns File_mb 1 1 1 world_no_dev) = Some (Inr 700)"
    by (simp add: result_of_def)
  with a show ?thesis by simp
qed

theorem unchecked_acquisition_witness:
  "open_src (env world_no_dev) (length (os_calls world_no_dev)) = None
   \<and> run_bench_ns File_mb 100 128 5 world_no_dev \<noteq> Some (Inl SIGSEGV)
   \<and> (\<exists>r w'. run_bench_ns File_mb 100 128 5 world_no_dev = Some (Inr (r, w')))
   \<and> (\<exists>w'. run_impl Mmap_mb world_no_dev = Inr w'
          \<and> fds w' = [] \<and> mappings w' = [] \<and> buffers w' = [])"
proof -
  note T = unchecked_acquisition [of world_no_dev 100 128 5 SIGSEGV Mmap_mb]
  have o: "open_src (env world_no_dev) (length (os_calls world_no_dev)) = None"
    by (simp add: world_no_dev_def env_no_dev_def)
  have z: "fds world_no_dev = []" "mappings world_no_dev = []" "buffers world_no_dev = []"
    by (simp_all add: world_no_dev_def)
  have "\<exists>w'. run_impl Mmap_mb world_no_dev = Inr w'"
    by (simp add: run_impl_def mmap_mb_def os_defs world_no_dev_def env_no_dev_def)
  then obtain w' where r: "run_impl Mmap_mb world_no_dev = Inr w'" by blast
  with T have "fds w' = fds world_no_dev \<and> mappings w' = mappings world_no_dev
      \<and> buffers w' = buffers world_no_dev" by blast
  with r have m: "\<exists>w'. run_impl Mmap_mb world_no_dev = Inr w'
          \<and> fds w' = [] \<and> mappings w' = [] \<and> buffers w' = []"
    by (auto simp: z)
  from T have "run_bench_ns File_mb 100 128 5 world_no_dev \<noteq> Some (Inl SIGSEGV)" by simp
  moreover from T have "\<exists>r w'. run_bench_ns File_mb 100 128 5 world_no_dev = Some (Inr (r, w'))"
    by simp
  ultimately show ?thesis using o m by simp
qed

end
